theory Spec2Isabelle
  imports Complex_Main "HOL-Library.Word"
begin

section \<open>RGB grid screensaver: numbers, errors and Python primitives\<close>

text \<open>
  The program is \<^verbatim>\<open>src/rgb_grid_screensaver.py\<close>, one class \<^verbatim>\<open>RGBGridScreensaver\<close>.
  Python's unbounded integers are \<^typ>\<open>int\<close>. A Python float is a binary64 number; a
  finite one is modelled by the \<^typ>\<open>real\<close> it denotes, and a float parameter is taken to
  be finite. The number of frames of a tone, the errors of the synthesis loop and the
  sizing of the grid follow binary64: each operation is the exact one rounded to the
  nearest binary64 number (\<open>round64\<close>), and a result beyond the largest one is an
  infinity (\<open>overflows64\<close>). The pitch mapping, the envelope and the value of a sample
  are computed on the reals with exact operations: the sine of the platform is not
  specified to the last bit, and a sample of the source can differ by one from the exact
  one. The concrete inputs used for them are chosen so that the binary64 computation of
  the source takes the same branches and yields the same integers.
\<close>

datatype py_error = IndexError | ValueError | ZeroDivisionError | OverflowError

text \<open>\<^verbatim>\<open>int(x)\<close> on a float: truncation towards zero.\<close>

definition py_int :: "real \<Rightarrow> int" where
  "py_int x = (if x < 0 then \<lceil>x\<rceil> else \<lfloor>x\<rfloor>)"

text \<open>\<^verbatim>\<open>round(x)\<close> on a float: to the nearest integer, a tie to the even neighbour.\<close>

definition py_round :: "real \<Rightarrow> int" where
  "py_round x =
     (let f = \<lfloor>x\<rfloor>; d = x - of_int f
      in if d < 1 / 2 then f
         else if 1 / 2 < d then f + 1
         else if even f then f else f + 1)"

text \<open>
  Rounding to binary64, to the nearest number with ties to the even one: a number in the
  binade \<open>[2^e, 2^(e+1))\<close> is rounded to a multiple of \<open>2^(e - 52)\<close>; below the smallest
  normal binade, \<open>e = -1022\<close>, the spacing stays \<open>2^(-1074)\<close>. A number that rounds to
  \<open>2^1024\<close> or beyond has no finite binary64 value.
\<close>

definition binade :: "real \<Rightarrow> int" where
  "binade x = max (- 1022) \<lfloor>log 2 \<bar>x\<bar>\<rfloor>"

definition quantum :: "real \<Rightarrow> real" where
  "quantum x = 2 powr of_int (binade x - 52)"

definition round64 :: "real \<Rightarrow> real" where
  "round64 x = (if x = 0 then 0 else of_int (py_round (x / quantum x)) * quantum x)"

definition overflows64 :: "real \<Rightarrow> bool" where
  "overflows64 x \<longleftrightarrow> 2 ^ 1024 \<le> \<bar>round64 x\<bar>"

text \<open>
  The position that \<^verbatim>\<open>xs[i]\<close> and \<^verbatim>\<open>xs[i] = v\<close> address in a list: \<open>i\<close> itself from
  0 up to the length, \<open>len(xs) + i\<close> for the negative indices down to \<open>-len(xs)\<close>, and
  \<^verbatim>\<open>IndexError\<close> outside.
\<close>

definition py_index :: "'a list \<Rightarrow> int \<Rightarrow> py_error + nat" where
  "py_index xs i =
     (if 0 \<le> i \<and> i < int (length xs) then Inr (nat i)
      else if i < 0 \<and> - int (length xs) \<le> i then Inr (nat (int (length xs) + i))
      else Inl IndexError)"

definition py_get :: "'a list \<Rightarrow> int \<Rightarrow> py_error + 'a" where
  "py_get xs i = (case py_index xs i of Inl e \<Rightarrow> Inl e | Inr j \<Rightarrow> Inr (xs ! j))"

definition py_set :: "'a list \<Rightarrow> int \<Rightarrow> 'a \<Rightarrow> py_error + 'a list" where
  "py_set xs i v = (case py_index xs i of Inl e \<Rightarrow> Inl e | Inr j \<Rightarrow> Inr (xs[j := v]))"

section \<open>Colours and notes\<close>

type_synonym rgb = "int \<times> int \<times> int"

subsection \<open>\<^verbatim>\<open>rgb_to_hex\<close>\<close>

definition hex_digit :: "nat \<Rightarrow> char" where
  "hex_digit d = ''0123456789abcdef'' ! d"

fun hex_digits :: "nat \<Rightarrow> string" where
  "hex_digits n =
     (if n < 16 then [hex_digit n] else hex_digits (n div 16) @ [hex_digit (n mod 16)])"

declare hex_digits.simps [simp del]

text \<open>
  The format specification \<^verbatim>\<open>02x\<close>: lower-case hexadecimal, zero-padded to a width of
  two characters, the sign of a negative number counted in the width.
\<close>

definition zero_pad :: "nat \<Rightarrow> string \<Rightarrow> string" where
  "zero_pad w s = replicate (w - length s) CHR ''0'' @ s"

definition format_02x :: "int \<Rightarrow> string" where
  "format_02x n =
     (if n < 0 then CHR ''-'' # zero_pad 1 (hex_digits (nat (- n)))
      else zero_pad 2 (hex_digits (nat n)))"

definition rgb_to_hex :: "int \<Rightarrow> int \<Rightarrow> int \<Rightarrow> string" where
  "rgb_to_hex r g b = CHR ''#'' # format_02x r @ format_02x g @ format_02x b"

subsection \<open>\<^verbatim>\<open>color_to_midi_map\<close> and \<^verbatim>\<open>color_to_midi_note\<close>\<close>

definition color_to_midi_map :: "string \<rightharpoonup> int" where
  "color_to_midi_map =
     [''#000000'' \<mapsto> 36, ''#0a0a0a'' \<mapsto> 38, ''#1a1a1a'' \<mapsto> 40, ''#ffffff'' \<mapsto> 60]"

text \<open>\<^verbatim>\<open>str.lower()\<close>, on the ASCII letters (a \<^typ>\<open>string\<close> is a list of bytes).\<close>

definition lower_char :: "char \<Rightarrow> char" where
  "lower_char c =
     (let k = (of_char c :: nat) in if 65 \<le> k \<and> k \<le> 90 then char_of (k + 32) else c)"

definition lower :: "string \<Rightarrow> string" where
  "lower s = map lower_char s"

text \<open>
  The expression \<^verbatim>\<open>int((v / 255) * 12)\<close> of lines 87 to 89, the offset of a channel
  inside its band of twelve semitones.
\<close>

definition channel_offset :: "int \<Rightarrow> int" where
  "channel_offset v = py_int ((of_int v / 255) * 12)"

text \<open>
  \<^verbatim>\<open>color_to_midi_note(hex_color, rgb)\<close>. Both parameters are optional; a \<^verbatim>\<open>None\<close> or
  empty \<^verbatim>\<open>hex_color\<close> is falsy, a triple is always truthy.
\<close>

definition color_to_midi_note :: "string option \<Rightarrow> rgb option \<Rightarrow> int" where
  "color_to_midi_note hex_color rgb =
     (case (case hex_color of
              None \<Rightarrow> None
            | Some h \<Rightarrow> if h = [] then None else color_to_midi_map (lower h)) of
        Some note \<Rightarrow> note
      | None \<Rightarrow>
          (case rgb of
             Some (r, g, b) \<Rightarrow>
               (let red_note = 36 + channel_offset r;
                    green_note = 48 + channel_offset g;
                    blue_note = 60 + channel_offset b;
                    avg_note = py_round (of_int (red_note + green_note + blue_note) / 3)
                in max 36 (min 96 avg_note))
           | None \<Rightarrow> 60))"

text \<open>
  The note \<^verbatim>\<open>update_grid\<close> plays for a new colour (lines 206 and 207):
  \<^verbatim>\<open>color_to_midi_note(rgb_to_hex(*rgb_value), rgb_value)\<close>.
\<close>

definition note_of_rgb :: "rgb \<Rightarrow> int" where
  "note_of_rgb c = (case c of (r, g, b) \<Rightarrow> color_to_midi_note (Some (rgb_to_hex r g b)) (Some c))"

text \<open>The generative branch alone, for comparison with the reserved notes.\<close>

definition generative_note :: "rgb \<Rightarrow> int" where
  "generative_note c = color_to_midi_note None (Some c)"

section \<open>The grid store\<close>

type_synonym cell = "rgb option"

text \<open>
  The fields of \<^verbatim>\<open>RGBGridScreensaver\<close> that the grid, the scheduler and the drawing
  pass read and write. \<^verbatim>\<open>played\<close> is the audio sink seen from the program: the
  \<^verbatim>\<open>(note, velocity)\<close> arguments of every call of \<^verbatim>\<open>play_midi_note\<close>, the latest first.
  The display, the fonts and the mixer are outside the model.
\<close>

record screensaver =
  screen_width :: int
  screen_height :: int
  grid_cols :: int
  grid_rows :: int
  cell_size :: real
  grid_data :: "cell list"
  grid_index :: int
  previous_cell_colors :: "string option list"
  last_update :: int
  played :: "(int \<times> int) list"

definition update_interval :: int where
  "update_interval = 500"

subsection \<open>\<^verbatim>\<open>update_grid_size\<close>\<close>

text \<open>
  The loop \<^verbatim>\<open>for i in range(min_cells): self.grid_data[i] = old_data[i]\<close>. Every index
  is below \<^verbatim>\<open>min(len(old_data), total_cells)\<close>, in range of both lists.
\<close>

definition copy_old :: "nat \<Rightarrow> 'a list \<Rightarrow> 'a list \<Rightarrow> 'a list" where
  "copy_old min_cells old_data new_data =
     fold (\<lambda>i xs. xs[i := old_data ! i]) [0..<min_cells] new_data"

text \<open>
  \<^verbatim>\<open>update_grid_size\<close> is two blocks run one after the other. The first (lines 146 to
  167) fits the numbers of columns and rows and the cell size to the screen, in
  binary64. \<^verbatim>\<open>min(width, height) / 30\<close> and the two cell sizes are quotients of integers,
  rounded once. \<^verbatim>\<open>max(min_cell_size, ratio)\<close> is the integer 20 unless the ratio is
  larger; in the first case \<^verbatim>\<open>target_cell_size + gap\<close> is the integer 22 and the divisions
  by it are quotients of integers, in the second the sum is a float sum and the integer
  \<^verbatim>\<open>width + gap\<close> is converted to a float before the division. The screen's dimensions
  are machine integers, far below the range where a conversion overflows.
\<close>

definition fit_grid :: "screensaver \<Rightarrow> screensaver" where
  "fit_grid s =
     (let width = screen_width s;
          height = screen_height s;
          min_cell_size = 20;
          gap = 2;
          ratio = round64 (of_int (min width height) / 30);
          cols0 =
            (if of_int min_cell_size < ratio
             then py_int (round64 (round64 (of_int (width + gap)) / round64 (ratio + of_int gap)))
             else py_int (round64 (of_int (width + gap) / of_int (min_cell_size + gap))));
          rows0 =
            (if of_int min_cell_size < ratio
             then py_int (round64 (round64 (of_int (height + gap)) / round64 (ratio + of_int gap)))
             else py_int (round64 (of_int (height + gap) / of_int (min_cell_size + gap))));
          cols = max 10 cols0;
          rows = max 10 rows0;
          cell_width = round64 (of_int (width - (cols - 1) * gap) / of_int cols);
          cell_height = round64 (of_int (height - (rows - 1) * gap) / of_int rows)
      in s\<lparr>grid_cols := cols, grid_rows := rows, cell_size := min cell_width cell_height\<rparr>)"

text \<open>
  The second block (lines 169 to 186) resizes the data array to the new
  \<^verbatim>\<open>self.grid_cols * self.grid_rows\<close>.
\<close>

definition resize_grid_data :: "screensaver \<Rightarrow> screensaver" where
  "resize_grid_data s =
     (let total_cells = grid_cols s * grid_rows s
      in if int (length (grid_data s)) \<noteq> total_cells then
           (let old_data = grid_data s;
                blank = replicate (nat total_cells) None;
                new_data =
                  (if old_data \<noteq> [] then
                     copy_old (min (length old_data) (nat total_cells)) old_data blank
                   else blank);
                new_index =
                  (if grid_index s \<ge> total_cells then total_cells else grid_index s)
            in s\<lparr>grid_data := new_data, grid_index := new_index,
                  previous_cell_colors := replicate (nat total_cells) None\<rparr>)
         else s)"

definition update_grid_size :: "screensaver \<Rightarrow> screensaver" where
  "update_grid_size s = resize_grid_data (fit_grid s)"

text \<open>
  The object after \<^verbatim>\<open>__init__\<close> on a screen of \<open>w\<close> by \<open>h\<close> pixels: the fields as
  lines 29 to 48 set them, then \<^verbatim>\<open>update_grid_size()\<close>, then \<^verbatim>\<open>last_update = 0\<close>.
\<close>

definition init_fields :: "int \<Rightarrow> int \<Rightarrow> screensaver" where
  "init_fields w h =
     \<lparr>screen_width = w, screen_height = h, grid_cols = 0, grid_rows = 0, cell_size = 0,
      grid_data = [], grid_index = 0, previous_cell_colors = [], last_update = 0,
      played = []\<rparr>"

definition init :: "int \<Rightarrow> int \<Rightarrow> screensaver" where
  "init w h = (update_grid_size (init_fields w h))\<lparr>last_update := 0\<rparr>"

subsection \<open>\<^verbatim>\<open>update_grid\<close>\<close>

text \<open>
  \<^verbatim>\<open>play_midi_note\<close>: the tone is synthesised and handed to the mixer inside a
  \<^verbatim>\<open>try\<close> whose handler only prints, so the call never raises; the model records it.
\<close>

definition play_midi_note :: "int \<Rightarrow> int \<Rightarrow> screensaver \<Rightarrow> screensaver" where
  "play_midi_note note velocity s = s\<lparr>played := (note, velocity) # played s\<rparr>"

text \<open>
  The loop \<^verbatim>\<open>for i in range(total_cells - 1): self.grid_data[i] = self.grid_data[i + 1]\<close>,
  from index \<open>i\<close> on, with \<open>n = total_cells - 1\<close>.
\<close>

function shift_left :: "int \<Rightarrow> int \<Rightarrow> 'a list \<Rightarrow> py_error + 'a list" where
  "shift_left i n xs =
     (if i < n then
        (case py_get xs (i + 1) of
           Inl e \<Rightarrow> Inl e
         | Inr v \<Rightarrow>
             (case py_set xs i v of
                Inl e \<Rightarrow> Inl e
              | Inr ys \<Rightarrow> shift_left (i + 1) n ys))
      else Inr xs)"
  by pat_completeness auto
termination
  by (relation "measure (\<lambda>(i, n, xs). nat (n - i))") auto

declare shift_left.simps [simp del]

text \<open>
  \<^verbatim>\<open>update_grid\<close>, with the colour that \<^verbatim>\<open>generate_random_rgb()\<close> returned as the
  parameter \<open>rgb_value\<close>.
\<close>

definition update_grid :: "rgb \<Rightarrow> screensaver \<Rightarrow> py_error + screensaver" where
  "update_grid rgb_value s =
     (case rgb_value of (r, g, b) \<Rightarrow>
        (let midi_note = note_of_rgb rgb_value;
             velocity = py_int (of_int (r + g + b) / 3 / 255 * 127);
             s1 = play_midi_note midi_note (max 1 velocity) s;
             total_cells = grid_cols s * grid_rows s
         in if grid_index s \<ge> total_cells then
              (case shift_left 0 (total_cells - 1) (grid_data s) of
                 Inl e \<Rightarrow> Inl e
               | Inr xs \<Rightarrow>
                   (case py_set xs (total_cells - 1) (Some rgb_value) of
                      Inl e \<Rightarrow> Inl e
                    | Inr ys \<Rightarrow> Inr (s1\<lparr>grid_data := ys\<rparr>)))
            else
              (case py_set (grid_data s) (grid_index s) (Some rgb_value) of
                 Inl e \<Rightarrow> Inl e
               | Inr ys \<Rightarrow> Inr (s1\<lparr>grid_data := ys, grid_index := grid_index s + 1\<rparr>))))"

subsection \<open>\<^verbatim>\<open>draw_grid\<close> and the run loop\<close>

text \<open>
  Of \<^verbatim>\<open>draw_grid\<close> the model keeps what stays in the object: \<^verbatim>\<open>previous_cell_colors\<close>,
  refreshed cell by cell from \<^verbatim>\<open>grid_data[i]\<close>.
\<close>

definition cell_color :: "cell \<Rightarrow> string" where
  "cell_color c = (case c of Some (r, g, b) \<Rightarrow> rgb_to_hex r g b | None \<Rightarrow> ''#0a0a0a'')"

fun draw_cells :: "nat list \<Rightarrow> cell list \<Rightarrow> string option list \<Rightarrow> py_error + string option list" where
  "draw_cells [] data prev = Inr prev"
| "draw_cells (i # rest) data prev =
     (case py_get data (int i) of
        Inl e \<Rightarrow> Inl e
      | Inr c \<Rightarrow>
          (case py_set prev (int i) (Some (cell_color c)) of
             Inl e \<Rightarrow> Inl e
           | Inr prev' \<Rightarrow> draw_cells rest data prev'))"

definition draw_grid :: "screensaver \<Rightarrow> py_error + screensaver" where
  "draw_grid s =
     (let total_cells = grid_cols s * grid_rows s;
          prev = (if int (length (previous_cell_colors s)) \<noteq> total_cells
                  then replicate (nat total_cells) None
                  else previous_cell_colors s)
      in case draw_cells [0..<nat total_cells] (grid_data s) prev of
           Inl e \<Rightarrow> Inl e
         | Inr prev' \<Rightarrow> Inr (s\<lparr>previous_cell_colors := prev'\<rparr>))"

text \<open>
  One iteration of the \<^verbatim>\<open>while running\<close> loop of \<^verbatim>\<open>run\<close>. Its inputs are what the
  iteration reads from outside: the clock \<^verbatim>\<open>pygame.time.get_ticks()\<close>, the pending
  events, and the colour the random generator yields if it is asked.
\<close>

datatype event = QUIT | KEYDOWN_ESCAPE | KEYDOWN_OTHER | MOUSEBUTTONDOWN | OTHER_EVENT

fun handle_events :: "event list \<Rightarrow> bool \<Rightarrow> bool" where
  "handle_events [] running = running"
| "handle_events (QUIT # es) running = handle_events es False"
| "handle_events (KEYDOWN_ESCAPE # es) running = handle_events es False"
| "handle_events (MOUSEBUTTONDOWN # es) running = handle_events es False"
| "handle_events (_ # es) running = handle_events es running"

text \<open>Lines 311 to 317: the timed update, then the drawing pass.\<close>

definition tick :: "int \<Rightarrow> rgb \<Rightarrow> screensaver \<Rightarrow> py_error + screensaver" where
  "tick current_time rgb_value s =
     (if current_time - last_update s \<ge> update_interval then
        (case update_grid rgb_value s of
           Inl e \<Rightarrow> Inl e
         | Inr s' \<Rightarrow> draw_grid (s'\<lparr>last_update := current_time\<rparr>))
      else draw_grid s)"

record frame =
  current_time :: int
  events :: "event list"
  rgb_value :: rgb

text \<open>
  \<^verbatim>\<open>run\<close> on a finite sequence of iterations: it stops after the iteration whose events
  clear \<^verbatim>\<open>running\<close>, or when the sequence is used up.
\<close>

fun run :: "frame list \<Rightarrow> screensaver \<Rightarrow> py_error + screensaver" where
  "run [] s = Inr s"
| "run (f # fs) s =
     (let running = handle_events (events f) True
      in case tick (current_time f) (rgb_value f) s of
           Inl e \<Rightarrow> Inl e
         | Inr s' \<Rightarrow> if running then run fs s' else Inr s')"

section \<open>Tone synthesis\<close>

text \<open>\<^verbatim>\<open>midi_note_to_frequency\<close>: A4, note 69, is 440 Hz.\<close>

definition midi_note_to_frequency :: "int \<Rightarrow> real" where
  "midi_note_to_frequency note = 440 * (2 powr (of_int (note - 69) / 12))"

definition max_sample :: int where
  "max_sample = 2 ^ (16 - 1) - 1"

text \<open>
  Lines 111 to 115: the envelope of frame \<open>i\<close> in a buffer of \<open>frames\<close> frames. The
  fade-in test comes first; the fade-out test is its \<^verbatim>\<open>elif\<close>.
\<close>

definition envelope :: "int \<Rightarrow> int \<Rightarrow> int \<Rightarrow> real" where
  "envelope frames sample_rate i =
     (if of_int i < of_int sample_rate * (0.01 :: real) then
        of_int i / (of_int sample_rate * 0.01)
      else if of_int i > of_int frames - of_int sample_rate * (0.01 :: real) then
        (of_int frames - of_int i) / (of_int sample_rate * 0.01)
      else 1.0)"

text \<open>
  Line 101, \<^verbatim>\<open>frames = int(duration * sample_rate)\<close>: the integer is converted to a float
  (\<^verbatim>\<open>OverflowError\<close> when it is too large), the product is rounded to binary64, and
  \<^verbatim>\<open>int\<close> truncates it (\<^verbatim>\<open>OverflowError\<close> on an infinity).
\<close>

definition tone_frames :: "real \<Rightarrow> int \<Rightarrow> py_error + int" where
  "tone_frames duration sample_rate =
     (if overflows64 (of_int sample_rate) then Inl OverflowError
      else if overflows64 (duration * round64 (of_int sample_rate)) then Inl OverflowError
      else Inr (py_int (round64 (duration * round64 (of_int sample_rate)))))"

text \<open>
  The argument of the sine, \<^verbatim>\<open>2 * math.pi * frequency * i / sample_rate\<close>, is computed
  from left to right. \<^verbatim>\<open>2 * math.pi\<close> is the binary64 number \<open>two_pi64\<close>. When the product
  with the frequency, or then with \<open>i\<close>, overflows, the argument is an infinity or a NaN,
  and \<^verbatim>\<open>math.sin\<close> or the later \<^verbatim>\<open>int\<close> raises \<^verbatim>\<open>ValueError\<close>.
\<close>

definition two_pi64 :: real where
  "two_pi64 = 884279719003555 / 2 ^ 47"

definition sine_overflows :: "real \<Rightarrow> int \<Rightarrow> bool" where
  "sine_overflows frequency i \<longleftrightarrow>
     overflows64 (two_pi64 * frequency) \<or>
     overflows64 (round64 (two_pi64 * frequency) * round64 (of_int i))"

text \<open>
  Lines 108 to 117: the sample of frame \<open>i\<close>, before it is stored. The division by
  \<^verbatim>\<open>sample_rate\<close> in the sine's argument raises for a rate of zero, and an argument that
  is not finite raises as said; \<open>sample_value\<close> is what the lines compute otherwise, on
  the reals.
\<close>

definition sample_value :: "real \<Rightarrow> int \<Rightarrow> int \<Rightarrow> int \<Rightarrow> int" where
  "sample_value frequency frames sample_rate i =
     (let wave = sin (2 * pi * frequency * of_int i / of_int sample_rate)
      in py_int (wave * of_int max_sample * envelope frames sample_rate i * 0.3))"

definition tone_sample :: "real \<Rightarrow> int \<Rightarrow> int \<Rightarrow> int \<Rightarrow> py_error + int" where
  "tone_sample frequency frames sample_rate i =
     (if sample_rate = 0 then Inl ZeroDivisionError
      else if sine_overflows frequency i then Inl ValueError
      else Inr (sample_value frequency frames sample_rate i))"

text \<open>
  The array has \<^verbatim>\<open>dtype=np.int16\<close>: a row is a pair of 16-bit words, left and right
  channel, and storing an integer keeps its low 16 bits.
\<close>

type_synonym pcm_row = "16 word \<times> 16 word"

fun fill_tone :: "real \<Rightarrow> int \<Rightarrow> int \<Rightarrow> nat list \<Rightarrow> pcm_row list \<Rightarrow> py_error + pcm_row list" where
  "fill_tone frequency frames sample_rate [] arr = Inr arr"
| "fill_tone frequency frames sample_rate (i # rest) arr =
     (case tone_sample frequency frames sample_rate (int i) of
        Inl e \<Rightarrow> Inl e
      | Inr sample \<Rightarrow>
          fill_tone frequency frames sample_rate rest
            (arr[i := (word_of_int sample, word_of_int sample)]))"

text \<open>
  \<^verbatim>\<open>generate_tone(frequency, duration, sample_rate)\<close>; the result is the array handed to
  \<^verbatim>\<open>pygame.sndarray.make_sound\<close>. \<^verbatim>\<open>np.zeros\<close> refuses a negative number of rows; the
  allocation of a non-negative number of rows is taken to succeed, whatever the memory
  of the machine.
\<close>

definition generate_tone :: "real \<Rightarrow> real \<Rightarrow> int \<Rightarrow> py_error + pcm_row list" where
  "generate_tone frequency duration sample_rate =
     (case tone_frames duration sample_rate of
        Inl e \<Rightarrow> Inl e
      | Inr frames \<Rightarrow>
          if frames < 0 then Inl ValueError
          else fill_tone frequency frames sample_rate [0..<nat frames]
                 (replicate (nat frames) (0, 0)))"

section \<open>The invariant of the grid store, reachable states, sample states\<close>

text \<open>
  The length of the data array is the capacity \<^verbatim>\<open>grid_cols * grid_rows\<close>, and the write
  index lies between 0 and the capacity.
\<close>

definition grid_inv :: "screensaver \<Rightarrow> bool" where
  "grid_inv s \<longleftrightarrow>
     int (length (grid_data s)) = grid_cols s * grid_rows s \<and>
     0 \<le> grid_index s \<and> grid_index s \<le> grid_cols s * grid_rows s"

text \<open>
  The states of a running program: the object as the constructor leaves it, and every
  state an iteration of the run loop leads to.
\<close>

inductive reachable :: "screensaver \<Rightarrow> bool" where
  start: "reachable (init w h)"
| step: "reachable s \<Longrightarrow> tick t c s = Inr s' \<Longrightarrow> reachable s'"

text \<open>
  The clock readings, out of a sequence of them, at which the test of line 312 holds,
  starting from a given \<^verbatim>\<open>last_update\<close>: each reading that triggers becomes the next
  \<^verbatim>\<open>last_update\<close>.
\<close>

fun trigger_times :: "int \<Rightarrow> int list \<Rightarrow> int list" where
  "trigger_times last_time [] = []"
| "trigger_times last_time (t # ts) =
     (if t - last_time \<ge> update_interval then t # trigger_times t ts
      else trigger_times last_time ts)"

text \<open>
  Sample states for the concrete checks: a full grid of capacity four; a ten by ten grid
  holding one colour, on a screen that now fits eleven rows; a full ten by eleven grid,
  on a screen that now fits ten rows.
\<close>

definition full_2x2 :: screensaver where
  "full_2x2 =
     \<lparr>screen_width = 0, screen_height = 0, grid_cols = 2, grid_rows = 2, cell_size = 0,
      grid_data = [Some (1, 1, 1), Some (2, 2, 2), Some (3, 3, 3), Some (4, 4, 4)],
      grid_index = 4, previous_cell_colors = [], last_update = 0, played = []\<rparr>"

definition grown_screen :: screensaver where
  "grown_screen =
     \<lparr>screen_width = 0, screen_height = 240, grid_cols = 10, grid_rows = 10, cell_size = 0,
      grid_data = Some (1, 2, 3) # replicate 99 None, grid_index = 1,
      previous_cell_colors = [], last_update = 0, played = []\<rparr>"

definition shrunk_screen :: screensaver where
  "shrunk_screen =
     \<lparr>screen_width = 0, screen_height = 0, grid_cols = 10, grid_rows = 11, cell_size = 0,
      grid_data = replicate 110 (Some (7, 7, 7)), grid_index = 110,
      previous_cell_colors = [], last_update = 0, played = []\<rparr>"

section \<open>Properties of the note mapping\<close>

subsection \<open>Truncation and rounding on fractions of integers\<close>

lemma py_int_frac:
  "py_int (of_int a / of_int b) =
     (if (of_int a / of_int b :: real) < 0 then - ((- a) div b) else a div b)"
proof -
  have "- (of_int a / of_int b :: real) = of_int (- a) / of_int b" by simp
  then have "\<lfloor>- (of_int a / of_int b :: real)\<rfloor> = (- a) div b"
    by (simp only: floor_divide_of_int_eq)
  then show ?thesis
    by (simp add: py_int_def ceiling_def floor_divide_of_int_eq)
qed

lemma channel_offset_int:
  "channel_offset v = (if v < 0 then - ((- v * 12) div 255) else (v * 12) div 255)"
proof -
  have eq: "(of_int v / 255 * 12 :: real) = of_int (v * 12) / of_int 255" by simp
  have neg: "(of_int (v * 12) / of_int 255 :: real) < 0 \<longleftrightarrow> v < 0"
    by (simp add: divide_less_0_iff)
  show ?thesis
    unfolding channel_offset_def eq py_int_frac neg by simp
qed

text \<open>A third of an integer is never half-way between two integers: no tie arises.\<close>

lemma py_round_thirds: "py_round (of_int n / 3) = (n + 1) div 3"
proof -
  have fl: "\<lfloor>(of_int n / 3 :: real)\<rfloor> = n div 3"
    using floor_divide_of_int_eq [of n 3, where ?'a = real] by simp
  have d: "(of_int n / 3 :: real) - of_int (n div 3) = of_int (n mod 3) / 3"
  proof -
    have "(of_int n / of_int 3 :: real) = of_int (n div 3) + of_int (n mod 3) / of_int 3"
      by (rule of_int_div_aux)
    then have "(of_int n / 3 :: real) = of_int (n div 3) + of_int (n mod 3) / 3"
      by (simp only: of_int_numeral)
    then show ?thesis by linarith
  qed
  consider "n mod 3 = 0" | "n mod 3 = 1" | "n mod 3 = 2"
    by (smt (verit) pos_mod_bound pos_mod_sign)
  then show ?thesis
  proof cases
    case 1
    then show ?thesis unfolding py_round_def Let_def fl d by (simp; presburger)
  next
    case 2
    then show ?thesis unfolding py_round_def Let_def fl d by (simp; presburger)
  next
    case 3
    then show ?thesis unfolding py_round_def Let_def fl d by (simp; presburger)
  qed
qed

lemma generative_note_int:
  "generative_note (r, g, b) =
     max 36 (min 96 ((144 + channel_offset r + channel_offset g + channel_offset b + 1) div 3))"
proof -
  have "36 + channel_offset r + (48 + channel_offset g) + (60 + channel_offset b)
      = 144 + channel_offset r + channel_offset g + channel_offset b"
    by simp
  then have "py_round (of_int (36 + channel_offset r + (48 + channel_offset g)
      + (60 + channel_offset b)) / 3)
      = (144 + channel_offset r + channel_offset g + channel_offset b + 1) div 3"
    by (simp only: py_round_thirds)
  then show ?thesis
    unfolding generative_note_def color_to_midi_note_def Let_def
    by (simp only: option.case prod.case)
qed

lemma rgb_to_hex_reserved:
  "rgb_to_hex 0 0 0 = ''#000000''" "rgb_to_hex 10 10 10 = ''#0a0a0a''"
  "rgb_to_hex 26 26 26 = ''#1a1a1a''" "rgb_to_hex 255 255 255 = ''#ffffff''"
  by (simp_all add: rgb_to_hex_def format_02x_def zero_pad_def hex_digits.simps hex_digit_def)

lemma lower_reserved:
  "lower ''#000000'' = ''#000000''" "lower ''#0a0a0a'' = ''#0a0a0a''"
  "lower ''#1a1a1a'' = ''#1a1a1a''" "lower ''#ffffff'' = ''#ffffff''"
  by (simp_all add: lower_def lower_char_def)

lemma color_to_midi_map_reserved:
  "color_to_midi_map ''#000000'' = Some 36" "color_to_midi_map ''#0a0a0a'' = Some 38"
  "color_to_midi_map ''#1a1a1a'' = Some 40" "color_to_midi_map ''#ffffff'' = Some 60"
  by (simp_all add: color_to_midi_map_def)

subsection \<open>The offset of a channel\<close>

lemma channel_offset_below_255:
  assumes "0 \<le> v" and "v < 255"
  shows "0 \<le> channel_offset v \<and> channel_offset v < 12"
  using assms
  by (simp add: channel_offset_int div_less_iff_less_mult pos_imp_zdiv_nonneg_iff)

lemma channel_offset_upto_255:
  assumes "0 \<le> v" and "v \<le> 255"
  shows "0 \<le> channel_offset v \<and> channel_offset v \<le> 12"
proof -
  have "0 \<le> channel_offset v \<and> channel_offset v < 13"
    using assms
    by (simp add: channel_offset_int div_less_iff_less_mult pos_imp_zdiv_nonneg_iff)
  then show ?thesis by simp
qed

text \<open>
  C3. The offset \<^verbatim>\<open>int((v / 255) * 12)\<close> of a channel value in \<open>[0,255]\<close> is meant to stay
  below 12, so that the red, green and blue notes lie in the bands C2 to B2, C3 to B3 and
  C4 to B4 that the comments of lines 87 to 89 name. It does for every value below 255
  (\<open>channel_offset_below_255\<close>). At the channel value 255 the code computes the offset
  12, the first note of the next band: the yellow \<open>(255, 255, 0)\<close> gets note 56 where
  offsets capped at 11 would give 55.
\<close>

theorem channel_offset_255:
  "channel_offset 255 = 12 \<and> generative_note (255, 255, 0) = 56"
  by (simp add: generative_note_int channel_offset_int)

subsection \<open>The range of notes\<close>

lemma color_to_midi_map_values:
  "color_to_midi_map k = Some n \<Longrightarrow> n = 36 \<or> n = 38 \<or> n = 40 \<or> n = 60"
  by (auto simp: color_to_midi_map_def split: if_splits)

lemma color_to_midi_note_range:
  "36 \<le> color_to_midi_note h c \<and> color_to_midi_note h c \<le> 96"
  by (auto simp: color_to_midi_note_def Let_def split: option.splits
      dest: color_to_midi_map_values)

text \<open>
  C4. For every colour, whatever its channels, the note played for it lies between 36
  and 96: a reserved colour has one of the notes 36, 38, 40 and 60, and the generative
  branch clamps its average.
\<close>

theorem note_of_rgb_range:
  "36 \<le> note_of_rgb (r, g, b) \<and> note_of_rgb (r, g, b) \<le> 96"
  by (simp add: note_of_rgb_def color_to_midi_note_range)

text \<open>
  C5. The four reserved colours get their fixed notes: black 36, the two dark greys 38
  and 40, white 60. The generative formula is bypassed: on black and on the two greys
  it would give 48, 48 and 49.
\<close>

theorem reserved_colors_notes:
  "note_of_rgb (0, 0, 0) = 36 \<and> note_of_rgb (10, 10, 10) = 38 \<and>
   note_of_rgb (26, 26, 26) = 40 \<and> note_of_rgb (255, 255, 255) = 60 \<and>
   generative_note (0, 0, 0) = 48 \<and> generative_note (10, 10, 10) = 48 \<and>
   generative_note (26, 26, 26) = 49 \<and> generative_note (255, 255, 255) = 60"
proof -
  have reserved: "note_of_rgb (0, 0, 0) = 36 \<and> note_of_rgb (10, 10, 10) = 38 \<and>
      note_of_rgb (26, 26, 26) = 40 \<and> note_of_rgb (255, 255, 255) = 60"
    by (simp add: note_of_rgb_def color_to_midi_note_def rgb_to_hex_reserved lower_reserved
        color_to_midi_map_reserved)
  have generative: "generative_note (0, 0, 0) = 48 \<and> generative_note (10, 10, 10) = 48 \<and>
      generative_note (26, 26, 26) = 49 \<and> generative_note (255, 255, 255) = 60"
    by (simp add: generative_note_int channel_offset_int)
  from reserved generative show ?thesis by simp
qed

section \<open>Properties of truncation and of binary64 rounding\<close>

subsection \<open>Truncation\<close>

lemma py_int_abs_le:
  assumes "\<bar>x\<bar> < of_int n + 1"
  shows "\<bar>py_int x\<bar> \<le> n"
proof (cases "x < 0")
  case True
  then have "\<lceil>x\<rceil> \<le> 0" by (simp add: ceiling_le_iff)
  moreover from assms True have "- of_int n - 1 < x" by linarith
  then have "- n \<le> \<lceil>x\<rceil>" by (simp add: le_ceiling_iff)
  ultimately show ?thesis using True by (simp add: py_int_def)
next
  case False
  then have "0 \<le> \<lfloor>x\<rfloor>" by simp
  moreover from assms False have "x < of_int n + 1" by linarith
  then have "\<lfloor>x\<rfloor> \<le> n" by (simp add: floor_le_iff)
  ultimately show ?thesis using False by (simp add: py_int_def)
qed


lemma py_int_small: "\<bar>x\<bar> < 1 \<Longrightarrow> py_int x = 0"
  using py_int_abs_le [of x 0] by simp

subsection \<open>Rounding: error, overflow, numbers that are kept\<close>

lemma quantum_pos: "0 < quantum x"
  by (simp add: quantum_def)

lemma py_round_near: "\<bar>of_int (py_round y) - y\<bar> \<le> 1 / 2"
proof -
  have "of_int \<lfloor>y\<rfloor> \<le> y" "y < of_int \<lfloor>y\<rfloor> + 1" by linarith+
  then show ?thesis
    by (auto simp: py_round_def Let_def)
qed

lemma py_round_of_int: "py_round (of_int n) = n"
  by (simp add: py_round_def)

lemma round64_error: "\<bar>round64 x - x\<bar> \<le> quantum x / 2"
proof (cases "x = 0")
  case True
  then show ?thesis using quantum_pos [of x] by (simp add: round64_def)
next
  case False
  let ?q = "quantum x"
  have q: "0 < ?q" by (rule quantum_pos)
  have "round64 x - x = (of_int (py_round (x / ?q)) - x / ?q) * ?q"
    using False q by (simp add: round64_def field_simps)
  then have "\<bar>round64 x - x\<bar> = \<bar>of_int (py_round (x / ?q)) - x / ?q\<bar> * ?q"
    using q by (simp add: abs_mult)
  also have "\<dots> \<le> 1 / 2 * ?q"
    using py_round_near [of "x / ?q"] q by (intro mult_right_mono) simp_all
  finally show ?thesis by simp
qed

lemma quantum_le: 
  assumes "x \<noteq> 0"
  shows "quantum x \<le> max \<bar>x\<bar> 1"
proof (cases "- 1022 \<le> \<lfloor>log 2 \<bar>x\<bar>\<rfloor>")
  case True
  then have b: "binade x = \<lfloor>log 2 \<bar>x\<bar>\<rfloor>" by (simp add: binade_def)
  from assms have "0 < \<bar>x\<bar>" by simp
  then have "2 powr of_int \<lfloor>log 2 \<bar>x\<bar>\<rfloor> \<le> \<bar>x\<bar>"
    using floor_log_eq_powr_iff [of "\<bar>x\<bar>" 2 "\<lfloor>log 2 \<bar>x\<bar>\<rfloor>"] by simp
  moreover have "quantum x \<le> 2 powr of_int \<lfloor>log 2 \<bar>x\<bar>\<rfloor>"
    unfolding quantum_def b by (intro powr_mono) simp_all
  ultimately show ?thesis by simp
next
  case False
  then have "binade x = - 1022" by (simp add: binade_def)
  then have "quantum x = 2 powr (- 1074)" by (simp add: quantum_def)
  also have "\<dots> \<le> 2 powr 0" by (intro powr_mono) simp_all
  finally show ?thesis by simp
qed

lemma round64_abs_le: "\<bar>round64 x\<bar> \<le> 2 * \<bar>x\<bar> + 1"
proof (cases "x = 0")
  case True
  then show ?thesis by (simp add: round64_def)
next
  case False
  from quantum_le [OF False] have "quantum x \<le> \<bar>x\<bar> + 1" by (simp add: max_def split: if_splits)
  with round64_error [of x] show ?thesis by linarith
qed

lemma not_overflows64:
  assumes "\<bar>x\<bar> \<le> 2 ^ 1022"
  shows "\<not> overflows64 x"
proof -
  have "(2 :: real) * 2 ^ 1022 + 1 < 2 ^ 1024" by simp
  with round64_abs_le [of x] assms show ?thesis by (simp add: overflows64_def)
qed


lemma binade_upper:
  assumes "x \<noteq> 0" and "\<bar>x\<bar> < 2 powr of_int (k + 1)" and "- 1022 \<le> k"
  shows "binade x \<le> k"
proof -
  from assms(1) have pos: "0 < \<bar>x\<bar>" by simp
  have "log 2 \<bar>x\<bar> < of_int (k + 1)"
    using assms(2) pos by (simp add: log_less_iff)
  then have "\<lfloor>log 2 \<bar>x\<bar>\<rfloor> < k + 1" by (simp only: floor_less_iff)
  with assms(3) show ?thesis by (simp add: binade_def)
qed

lemma round64_dyadic:
  assumes m: "\<bar>m\<bar> < 2 ^ 53" and k: "- 1074 \<le> k"
  shows "round64 (of_int m * 2 powr of_int k) = of_int m * 2 powr of_int k"
proof (cases "m = 0")
  case True
  then show ?thesis by (simp add: round64_def)
next
  case False
  define p :: real where "p = 2 powr of_int k"
  define x where "x = of_int m * p"
  define q where "q = quantum x"
  have p: "0 < p" by (simp add: p_def)
  have x0: "x \<noteq> 0" using False p by (simp add: x_def)
  have q0: "0 < q" unfolding q_def by (rule quantum_pos)
  have "\<bar>x\<bar> = of_int \<bar>m\<bar> * p" using p by (simp add: x_def abs_mult)
  also have "\<dots> < 2 ^ 53 * p"
  proof -
    from m have "(of_int \<bar>m\<bar> :: real) < of_int (2 ^ 53)" by (simp only: of_int_less_iff)
    with p show ?thesis by simp
  qed
  also have "\<dots> = 2 powr of_int (k + 52 + 1)"
    by (simp add: p_def powr_add powr_realpow [symmetric] del: powr_realpow)
  finally have "binade x \<le> k + 52" using x0 k by (intro binade_upper) simp_all
  then have "0 \<le> k - (binade x - 52)" by simp
  then obtain j where "k - (binade x - 52) = int j"
    using nonneg_int_cases by blast
  then have "(of_int k :: real) = of_int (int j) + of_int (binade x - 52)"
    by (metis add_diff_cancel_left' add_diff_eq of_int_add diff_add_cancel)
  then have "(2 :: real) powr of_int k = 2 powr of_int (int j) * 2 powr of_int (binade x - 52)"
    by (simp only: powr_add)
  then have pq: "p = 2 ^ j * q"
    by (simp add: p_def q_def quantum_def powr_realpow)
  have "x / q = of_int (m * 2 ^ j)"
    using q0 by (simp add: x_def pq)
  then have "py_round (x / q) = m * 2 ^ j"
    by (simp only: py_round_of_int)
  then have "round64 x = of_int (m * 2 ^ j) * q"
    using x0 by (simp add: round64_def q_def)
  also have "\<dots> = x" by (simp add: x_def pq)
  finally show ?thesis by (simp add: x_def p_def)
qed

lemma round64_of_int:
  assumes "\<bar>n\<bar> < 2 ^ 53"
  shows "round64 (of_int n) = of_int n"
  using round64_dyadic [OF assms, of 0] by simp

lemma round64_small:
  assumes "\<bar>x\<bar> < 1 / 3"
  shows "\<bar>round64 x\<bar> < 1"
proof (cases "x = 0")
  case True
  then show ?thesis by (simp add: round64_def)
next
  case False
  from quantum_le [OF False] assms have "quantum x \<le> 1" by (simp add: max_def split: if_splits)
  with round64_error [of x] assms show ?thesis by linarith
qed

lemma round64_11: "round64 11 = 11" and round64_0: "round64 0 = 0"
  using round64_of_int [of 11] by (simp_all add: round64_def)

subsection \<open>Evaluating a rounding\<close>

lemma binade_eq:
  assumes "2 powr of_int e \<le> \<bar>x\<bar>" and "\<bar>x\<bar> < 2 powr of_int (e + 1)" and "- 1022 \<le> e"
  shows "binade x = e"
proof -
  have "0 < \<bar>x\<bar>" using assms(1) by (smt (verit) powr_gt_zero)
  then have "\<lfloor>log 2 \<bar>x\<bar>\<rfloor> = e"
    using assms(1,2) floor_log_eq_powr_iff [of "\<bar>x\<bar>" 2 e] by simp
  with assms(3) show ?thesis by (simp add: binade_def)
qed

lemma py_round_frac_down:
  assumes "0 < b" and "2 * (a mod b) < b"
  shows "py_round (of_int a / of_int b) = a div b"
proof -
  have fl: "\<lfloor>(of_int a / of_int b :: real)\<rfloor> = a div b" by (rule floor_divide_of_int_eq)
  have "(of_int a / of_int b :: real) = of_int (a div b) + of_int (a mod b) / of_int b"
    by (rule of_int_div_aux)
  then have d: "(of_int a / of_int b :: real) - of_int (a div b) = of_int (a mod b) / of_int b"
    by simp
  have "(of_int (2 * (a mod b)) :: real) < of_int b" using assms(2) by (simp only: of_int_less_iff)
  then have "(of_int (a mod b) / of_int b :: real) < 1 / 2"
    using assms(1) by (simp add: field_simps)
  then show ?thesis unfolding py_round_def Let_def fl d by simp
qed

lemma py_round_frac_up:
  assumes "0 < b" and "b < 2 * (a mod b)"
  shows "py_round (of_int a / of_int b) = a div b + 1"
proof -
  have fl: "\<lfloor>(of_int a / of_int b :: real)\<rfloor> = a div b" by (rule floor_divide_of_int_eq)
  have "(of_int a / of_int b :: real) = of_int (a div b) + of_int (a mod b) / of_int b"
    by (rule of_int_div_aux)
  then have d: "(of_int a / of_int b :: real) - of_int (a div b) = of_int (a mod b) / of_int b"
    by simp
  have "(of_int b :: real) < of_int (2 * (a mod b))" using assms(2) by (simp only: of_int_less_iff)
  then have "1 / 2 < (of_int (a mod b) / of_int b :: real)"
    using assms(1) by (simp add: field_simps)
  then show ?thesis unfolding py_round_def Let_def fl d by simp
qed

lemma round64_scaled:
  assumes x: "x = y * 2 powr of_int (e - 52)"
    and lo: "2 ^ 52 \<le> \<bar>y\<bar>" and hi: "\<bar>y\<bar> < 2 ^ 53" and e: "- 1022 \<le> e"
  shows "round64 x = of_int (py_round y) * 2 powr of_int (e - 52)"
proof -
  define q :: real where "q = 2 powr of_int (e - 52)"
  have q: "0 < q" by (simp add: q_def)
  have ax: "\<bar>x\<bar> = \<bar>y\<bar> * q" using q by (simp add: x q_def abs_mult)
  have p52: "(2 :: real) ^ 52 * q = 2 powr of_int e"
  proof -
    have "(2 :: real) ^ 52 = 2 powr of_int 52" by (simp add: powr_realpow [symmetric] del: powr_realpow)
    then have "(2 :: real) ^ 52 * q = 2 powr (of_int 52 + of_int (e - 52))"
      by (simp only: q_def powr_add)
    then show ?thesis by simp
  qed
  have p53: "(2 :: real) ^ 53 * q = 2 powr of_int (e + 1)"
  proof -
    have "(2 :: real) ^ 53 = 2 powr of_int 53" by (simp add: powr_realpow [symmetric] del: powr_realpow)
    then have "(2 :: real) ^ 53 * q = 2 powr (of_int 53 + of_int (e - 52))"
      by (simp only: q_def powr_add)
    then show ?thesis by (simp add: add.commute)
  qed
  have "2 powr of_int e \<le> \<bar>x\<bar>"
    unfolding ax p52 [symmetric] using lo q by (intro mult_right_mono) simp_all
  moreover have "\<bar>x\<bar> < 2 powr of_int (e + 1)"
    unfolding ax p53 [symmetric] using hi q by (intro mult_strict_right_mono) simp_all
  ultimately have b: "binade x = e" using e by (intro binade_eq)
  then have qx: "quantum x = q" by (simp add: quantum_def q_def)
  have "x \<noteq> 0" using lo q ax by (smt (verit) mult_eq_0_iff zero_less_power abs_zero)
  moreover have "x / q = y" using q by (simp add: x q_def)
  ultimately show ?thesis by (simp add: round64_def qx) (simp add: q_def)
qed


section \<open>Properties of the grid store\<close>

subsection \<open>Indexing in range\<close>

lemma py_index_in_range:
  "0 \<le> i \<Longrightarrow> i < int (length xs) \<Longrightarrow> py_index xs i = Inr (nat i)"
  by (simp add: py_index_def)

lemma py_get_in_range:
  "0 \<le> i \<Longrightarrow> i < int (length xs) \<Longrightarrow> py_get xs i = Inr (xs ! nat i)"
  by (simp add: py_get_def py_index_in_range)

lemma py_set_in_range:
  "0 \<le> i \<Longrightarrow> i < int (length xs) \<Longrightarrow> py_set xs i v = Inr (xs[nat i := v])"
  by (simp add: py_set_def py_index_in_range)

lemma py_set_length: "py_set xs i v = Inr ys \<Longrightarrow> length ys = length xs"
  by (auto simp: py_set_def split: sum.splits)

lemma shift_left_nth:
  assumes "0 \<le> i" and "n < int (length xs)"
  shows "\<exists>ys. shift_left i n xs = Inr ys \<and> length ys = length xs \<and>
           (\<forall>j < length xs. ys ! j = (if int j \<ge> i \<and> int j < n then xs ! Suc j else xs ! j))"
  using assms
proof (induction i n xs rule: shift_left.induct)
  case (1 i n xs)
  show ?case
  proof (cases "i < n")
    case False
    then have "shift_left i n xs = Inr xs" by (simp add: shift_left.simps)
    moreover have "\<forall>j < length xs. xs ! j = (if int j \<ge> i \<and> int j < n then xs ! Suc j else xs ! j)"
      using False by auto
    ultimately show ?thesis by simp
  next
    case True
    let ?v = "xs ! nat (i + 1)"
    let ?ys = "xs[nat i := ?v]"
    from True 1 have get: "py_get xs (i + 1) = Inr ?v"
      by (intro py_get_in_range) auto
    from True 1 have set: "py_set xs i ?v = Inr ?ys"
      by (intro py_set_in_range) auto
    have "0 \<le> i + 1" "n < int (length ?ys)" using 1 by auto
    from "1.IH" [OF True get set this]
    obtain zs where zs: "shift_left (i + 1) n ?ys = Inr zs" "length zs = length ?ys"
      "\<forall>j < length ?ys. zs ! j = (if int j \<ge> i + 1 \<and> int j < n then ?ys ! Suc j else ?ys ! j)"
      by blast
    have step: "shift_left i n xs = Inr zs"
      using True get set zs(1) by (subst shift_left.simps) simp
    have "zs ! j = (if int j \<ge> i \<and> int j < n then xs ! Suc j else xs ! j)"
      if "j < length xs" for j
    proof -
      from that zs(3) have "zs ! j = (if int j \<ge> i + 1 \<and> int j < n then ?ys ! Suc j else ?ys ! j)"
        by simp
      moreover have "nat (i + 1) = Suc (nat i)" using 1 by simp
      ultimately show ?thesis using that 1 True
        by (cases "j = nat i") (auto simp: nth_list_update)
    qed
    with step zs(2) show ?thesis by simp
  qed
qed

lemma shift_left_tl:
  assumes "xs \<noteq> []"
  shows "shift_left 0 (int (length xs) - 1) xs = Inr (tl xs @ [last xs])"
proof -
  from shift_left_nth [of 0 "int (length xs) - 1" xs]
  obtain ys where ys: "shift_left 0 (int (length xs) - 1) xs = Inr ys" "length ys = length xs"
    "\<forall>j < length xs. ys ! j = (if int j \<ge> 0 \<and> int j < int (length xs) - 1 then xs ! Suc j else xs ! j)"
    by auto
  have "ys = tl xs @ [last xs]"
  proof (rule nth_equalityI)
    show "length ys = length (tl xs @ [last xs])" using ys(2) assms by simp
  next
    fix j assume "j < length ys"
    then have j: "j < length xs" using ys(2) by simp
    show "ys ! j = (tl xs @ [last xs]) ! j"
    proof (cases "Suc j < length xs")
      case True
      then have "j < length (tl xs)" by simp
      moreover from True j ys(3) have "ys ! j = xs ! Suc j" by simp
      ultimately show ?thesis by (simp add: nth_append nth_tl)
    next
      case False
      with j have jl: "j = length xs - 1" by simp
      then have "\<not> int j < int (length xs) - 1" using j by simp
      with ys(3) j have "ys ! j = xs ! j" by simp
      moreover have "length (tl xs) = j" using jl by simp
      ultimately show ?thesis using jl assms by (simp add: nth_append last_conv_nth)
    qed
  qed
  with ys(1) show ?thesis by simp
qed

subsection \<open>An update of a full grid\<close>

lemma update_grid_full:
  assumes len: "int (length (grid_data s)) = grid_cols s * grid_rows s"
    and full: "grid_index s \<ge> grid_cols s * grid_rows s"
    and pos: "0 < grid_cols s * grid_rows s"
  shows "update_grid c s =
           Inr ((play_midi_note (note_of_rgb c)
                   (max 1 (py_int (of_int (fst c + fst (snd c) + snd (snd c)) / 3 / 255 * 127))) s)
                \<lparr>grid_data := tl (grid_data s) @ [Some c]\<rparr>)"
proof -
  let ?xs = "grid_data s"
  let ?N = "grid_cols s * grid_rows s"
  from len pos have ne: "?xs \<noteq> []" by auto
  have shift: "shift_left 0 (?N - 1) ?xs = Inr (tl ?xs @ [last ?xs])"
    using shift_left_tl [OF ne] len by simp
  from ne obtain x ys where xs: "?xs = x # ys" by (cases ?xs) auto
  have "py_set (ys @ [last ?xs]) (?N - 1) (Some c)
      = Inr ((ys @ [last ?xs])[nat (?N - 1) := Some c])"
    using len pos xs by (intro py_set_in_range) auto
  moreover have "nat (?N - 1) = length ys" using len xs by simp
  ultimately have "py_set (ys @ [last ?xs]) (?N - 1) (Some c) = Inr (ys @ [Some c])"
    by simp
  then have set: "py_set (tl ?xs @ [last ?xs]) (?N - 1) (Some c) = Inr (tl ?xs @ [Some c])"
    using xs by simp
  show ?thesis
    using full shift set
    by (cases c) (simp add: update_grid_def Let_def play_midi_note_def)
qed

text \<open>
  C1. On a full grid (the data array as long as the capacity \<open>N\<close>, the write index at
  \<open>N\<close>, \<open>N\<close> positive as it is from the first sizing on) \<^verbatim>\<open>update_grid\<close> with the
  colour \<open>c\<close> returns normally; the new array is the old one without its first cell,
  followed by \<open>c\<close>: cell \<open>i\<close> is the old cell \<open>i + 1\<close>, the last cell is \<open>c\<close>, and the
  index and the dimensions stay as they were.
\<close>

theorem update_grid_full_shifts:
  assumes len: "int (length (grid_data s)) = grid_cols s * grid_rows s"
    and full: "grid_index s = grid_cols s * grid_rows s"
    and pos: "0 < grid_cols s * grid_rows s"
  shows "\<exists>s'. update_grid c s = Inr s' \<and>
           grid_data s' = tl (grid_data s) @ [Some c] \<and>
           length (grid_data s') = length (grid_data s) \<and>
           (\<forall>i. Suc i < length (grid_data s) \<longrightarrow> grid_data s' ! i = grid_data s ! Suc i) \<and>
           grid_data s' ! (length (grid_data s) - 1) = Some c \<and>
           grid_index s' = grid_index s \<and>
           grid_cols s' = grid_cols s \<and> grid_rows s' = grid_rows s"
proof -
  let ?xs = "grid_data s"
  from len pos have ne: "?xs \<noteq> []" by auto
  then obtain x ys where xs: "?xs = x # ys" by (cases ?xs) auto
  have a: "length (tl ?xs @ [Some c]) = length ?xs" using xs by simp
  have b: "(tl ?xs @ [Some c]) ! i = ?xs ! Suc i" if "Suc i < length ?xs" for i
    using that xs by (simp add: nth_append)
  have c: "(tl ?xs @ [Some c]) ! (length ?xs - 1) = Some c"
    using xs by simp
  from update_grid_full [OF len _ pos, of c] full a b c show ?thesis
    by (simp add: play_midi_note_def)
qed

theorem update_grid_full_shifts_witness:
  "\<exists>s'. update_grid (5, 5, 5) full_2x2 = Inr s' \<and>
         grid_data s' = [Some (2, 2, 2), Some (3, 3, 3), Some (4, 4, 4), Some (5, 5, 5)] \<and>
         grid_index s' = 4"
proof -
  have "int (length (grid_data full_2x2)) = grid_cols full_2x2 * grid_rows full_2x2"
    and "grid_index full_2x2 = grid_cols full_2x2 * grid_rows full_2x2"
    and "0 < grid_cols full_2x2 * grid_rows full_2x2"
    by (simp_all add: full_2x2_def)
  from update_grid_full_shifts [OF this, of "(5, 5, 5)"]
  obtain s' where "update_grid (5, 5, 5) full_2x2 = Inr s'"
    and "grid_data s' = tl (grid_data full_2x2) @ [Some (5, 5, 5)]"
    and "grid_index s' = grid_index full_2x2"
    by blast
  then show ?thesis by (simp add: full_2x2_def)
qed

subsection \<open>Resizing\<close>

lemma copy_old_take:
  "m \<le> length old \<Longrightarrow> m \<le> length new \<Longrightarrow> copy_old m old new = take m old @ drop m new"
proof (induction m)
  case 0
  then show ?case by (simp add: copy_old_def)
next
  case (Suc m)
  then have IH: "copy_old m old new = take m old @ drop m new" by simp
  have "copy_old (Suc m) old new = (copy_old m old new)[m := old ! m]"
    by (simp add: copy_old_def)
  also have "\<dots> = take m old @ (drop m new)[0 := old ! m]"
    using Suc.prems by (simp add: IH list_update_append)
  also have "(drop m new)[0 := old ! m] = old ! m # drop (Suc m) new"
    using Suc.prems by (cases "drop m new") (auto simp: drop_Suc tl_drop drop_tl)
  also have "take m old @ old ! m # drop (Suc m) new = take (Suc m) old @ drop (Suc m) new"
    using Suc.prems by (simp add: take_Suc_conv_app_nth)
  finally show ?case .
qed

lemma copy_old_blank:
  "copy_old (min (length old) n) old (replicate n None)
     = take n old @ replicate (n - length old) None"
  by (simp add: copy_old_take min_def)

lemma fit_grid_fields:
  "10 \<le> grid_cols (fit_grid s)" "10 \<le> grid_rows (fit_grid s)"
  "grid_data (fit_grid s) = grid_data s" "grid_index (fit_grid s) = grid_index s"
  "last_update (fit_grid s) = last_update s" "played (fit_grid s) = played s"
  "screen_width (fit_grid s) = screen_width s" "screen_height (fit_grid s) = screen_height s"
  unfolding fit_grid_def Let_def by simp_all

lemma resize_grid_data_dims:
  "grid_cols (resize_grid_data s) = grid_cols s" "grid_rows (resize_grid_data s) = grid_rows s"
  "last_update (resize_grid_data s) = last_update s" "played (resize_grid_data s) = played s"
  by (simp_all add: resize_grid_data_def Let_def)

lemma resize_grid_data_changed:
  assumes "int (length (grid_data s)) \<noteq> grid_cols s * grid_rows s"
  shows "grid_data (resize_grid_data s) =
           take (nat (grid_cols s * grid_rows s)) (grid_data s)
           @ replicate (nat (grid_cols s * grid_rows s) - length (grid_data s)) None"
    and "grid_index (resize_grid_data s) = min (grid_index s) (grid_cols s * grid_rows s)"
    and "previous_cell_colors (resize_grid_data s) = replicate (nat (grid_cols s * grid_rows s)) None"
proof -
  show "grid_data (resize_grid_data s) =
           take (nat (grid_cols s * grid_rows s)) (grid_data s)
           @ replicate (nat (grid_cols s * grid_rows s) - length (grid_data s)) None"
    using assms by (simp add: resize_grid_data_def Let_def copy_old_blank)
  show "grid_index (resize_grid_data s) = min (grid_index s) (grid_cols s * grid_rows s)"
    using assms by (simp add: resize_grid_data_def Let_def min_def)
  show "previous_cell_colors (resize_grid_data s) = replicate (nat (grid_cols s * grid_rows s)) None"
    using assms by (simp add: resize_grid_data_def Let_def)
qed

lemma resize_grid_data_same:
  assumes "int (length (grid_data s)) = grid_cols s * grid_rows s"
  shows "resize_grid_data s = s"
  using assms by (simp add: resize_grid_data_def Let_def)

lemma update_grid_size_dims:
  "10 \<le> grid_cols (update_grid_size s)" "10 \<le> grid_rows (update_grid_size s)"
  "grid_cols (update_grid_size s) = grid_cols (fit_grid s)"
  "grid_rows (update_grid_size s) = grid_rows (fit_grid s)"
  by (simp_all add: update_grid_size_def resize_grid_data_dims fit_grid_fields)

lemma update_grid_size_total: "100 \<le> grid_cols (update_grid_size s) * grid_rows (update_grid_size s)"
  using mult_mono [of 10 "grid_cols (update_grid_size s)" 10 "grid_rows (update_grid_size s)"]
    update_grid_size_dims(1,2) [of s]
  by simp

lemma update_grid_size_changed:
  assumes "int (length (grid_data s)) \<noteq> grid_cols (update_grid_size s) * grid_rows (update_grid_size s)"
  shows "grid_data (update_grid_size s) =
           take (nat (grid_cols (update_grid_size s) * grid_rows (update_grid_size s))) (grid_data s)
           @ replicate (nat (grid_cols (update_grid_size s) * grid_rows (update_grid_size s))
                        - length (grid_data s)) None"
    and "grid_index (update_grid_size s) =
           min (grid_index s) (grid_cols (update_grid_size s) * grid_rows (update_grid_size s))"
proof -
  have ne: "int (length (grid_data (fit_grid s))) \<noteq> grid_cols (fit_grid s) * grid_rows (fit_grid s)"
    using assms by (simp add: update_grid_size_dims fit_grid_fields)
  show "grid_data (update_grid_size s) =
           take (nat (grid_cols (update_grid_size s) * grid_rows (update_grid_size s))) (grid_data s)
           @ replicate (nat (grid_cols (update_grid_size s) * grid_rows (update_grid_size s))
                        - length (grid_data s)) None"
    using resize_grid_data_changed(1) [OF ne]
    by (simp add: update_grid_size_dims fit_grid_fields) (simp add: update_grid_size_def)
  show "grid_index (update_grid_size s) =
           min (grid_index s) (grid_cols (update_grid_size s) * grid_rows (update_grid_size s))"
    using resize_grid_data_changed(2) [OF ne]
    by (simp add: update_grid_size_dims fit_grid_fields) (simp add: update_grid_size_def)
qed

lemma update_grid_size_same:
  assumes "int (length (grid_data s)) = grid_cols (update_grid_size s) * grid_rows (update_grid_size s)"
  shows "grid_data (update_grid_size s) = grid_data s"
    and "grid_index (update_grid_size s) = grid_index s"
proof -
  have "int (length (grid_data (fit_grid s))) = grid_cols (fit_grid s) * grid_rows (fit_grid s)"
    using assms by (simp add: update_grid_size_dims fit_grid_fields)
  then have "update_grid_size s = fit_grid s"
    by (simp add: update_grid_size_def resize_grid_data_same)
  then show "grid_data (update_grid_size s) = grid_data s"
    and "grid_index (update_grid_size s) = grid_index s"
    by (simp_all add: fit_grid_fields)
qed

text \<open>
  C6. \<^verbatim>\<open>update_grid_size\<close> from an array of \<open>A\<close> cells to a capacity of \<open>B\<close>: when
  \<open>A < B\<close> all \<open>A\<close> cells keep their index and the new cells are empty; when \<open>B < A\<close>
  the first \<open>B\<close> cells keep their index and the array ends there; in both cases the
  write index becomes the smaller of the old index and \<open>B\<close>.
\<close>

theorem update_grid_size_preserves_cells:
  assumes s': "s' = update_grid_size s"
    and A: "A = length (grid_data s)"
    and B: "B = nat (grid_cols s' * grid_rows s')"
  shows "(A < B \<longrightarrow> length (grid_data s') = B \<and>
                  (\<forall>i<A. grid_data s' ! i = grid_data s ! i) \<and>
                  (\<forall>i. A \<le> i \<and> i < B \<longrightarrow> grid_data s' ! i = None)) \<and>
         (B < A \<longrightarrow> length (grid_data s') = B \<and>
                  (\<forall>i<B. grid_data s' ! i = grid_data s ! i)) \<and>
         (A \<noteq> B \<longrightarrow> grid_index s' = min (grid_index s) (int B))"
proof -
  have pos: "int B = grid_cols s' * grid_rows s'"
    using update_grid_size_total [of s] by (simp add: B s')
  show ?thesis
  proof (cases "A = B")
    case True
    then show ?thesis by simp
  next
    case False
    then have ne: "int (length (grid_data s)) \<noteq> grid_cols (update_grid_size s) * grid_rows (update_grid_size s)"
      using pos A s' by auto
    have data: "grid_data s' = take B (grid_data s) @ replicate (B - A) None"
      using update_grid_size_changed(1) [OF ne] by (simp add: s' A B)
    have idx: "grid_index s' = min (grid_index s) (int B)"
      using update_grid_size_changed(2) [OF ne] pos by (simp add: s')
    have len: "length (grid_data s') = B"
      unfolding data using A by auto
    have keep: "grid_data s' ! i = grid_data s ! i" if "i < A" "i < B" for i
      unfolding data using that A by (simp add: nth_append)
    have fresh: "grid_data s' ! i = None" if "A \<le> i" "i < B" for i
      unfolding data using that A by (simp add: nth_append)
    from len keep fresh idx show ?thesis by auto
  qed
qed

lemma fit_grid_grown: "grid_cols (fit_grid grown_screen) = 10" "grid_rows (fit_grid grown_screen) = 11"
proof -
  have "\<bar>round64 (1 / 11)\<bar> < 1" by (rule round64_small) simp
  then have small: "py_int (round64 (1 / 11)) = 0" by (rule py_int_small)
  have eleven: "py_int (round64 11) = 11" by (simp add: round64_11 py_int_def)
  show "grid_cols (fit_grid grown_screen) = 10" "grid_rows (fit_grid grown_screen) = 11"
    by (simp_all add: fit_grid_def grown_screen_def Let_def round64_0 small eleven)
qed

lemma fit_grid_shrunk: "grid_cols (fit_grid shrunk_screen) = 10" "grid_rows (fit_grid shrunk_screen) = 10"
proof -
  have "\<bar>round64 (1 / 11)\<bar> < 1" by (rule round64_small) simp
  then have small: "py_int (round64 (1 / 11)) = 0" by (rule py_int_small)
  show "grid_cols (fit_grid shrunk_screen) = 10" "grid_rows (fit_grid shrunk_screen) = 10"
    by (simp_all add: fit_grid_def shrunk_screen_def Let_def round64_0 small)
qed

theorem update_grid_size_preserves_cells_witness:
  "length (grid_data (update_grid_size grown_screen)) = 110 \<and>
   grid_data (update_grid_size grown_screen) ! 0 = Some (1, 2, 3) \<and>
   grid_data (update_grid_size grown_screen) ! 105 = None \<and>
   grid_index (update_grid_size grown_screen) = 1 \<and>
   length (grid_data (update_grid_size shrunk_screen)) = 100 \<and>
   grid_data (update_grid_size shrunk_screen) ! 99 = Some (7, 7, 7) \<and>
   grid_index (update_grid_size shrunk_screen) = 100"
proof -
  have B1: "nat (grid_cols (update_grid_size grown_screen) * grid_rows (update_grid_size grown_screen)) = 110"
    by (simp add: update_grid_size_dims(3,4) fit_grid_grown)
  have A1: "length (grid_data grown_screen) = 100" "grid_index grown_screen = 1"
    "grid_data grown_screen ! 0 = Some (1, 2, 3)"
    by (simp_all add: grown_screen_def)
  have B2: "nat (grid_cols (update_grid_size shrunk_screen) * grid_rows (update_grid_size shrunk_screen)) = 100"
    by (simp add: update_grid_size_dims(3,4) fit_grid_shrunk)
  have A2: "length (grid_data shrunk_screen) = 110" "grid_index shrunk_screen = 110"
    "grid_data shrunk_screen ! 99 = Some (7, 7, 7)"
    by (simp_all add: shrunk_screen_def)
  from update_grid_size_preserves_cells [OF refl refl refl, of grown_screen]
  have grown: "length (grid_data (update_grid_size grown_screen)) = 110"
    "\<forall>i<100. grid_data (update_grid_size grown_screen) ! i = grid_data grown_screen ! i"
    "\<forall>i. 100 \<le> i \<and> i < 110 \<longrightarrow> grid_data (update_grid_size grown_screen) ! i = None"
    "grid_index (update_grid_size grown_screen) = min (grid_index grown_screen) 110"
    unfolding A1 B1 by simp_all
  from update_grid_size_preserves_cells [OF refl refl refl, of shrunk_screen]
  have shrunk: "length (grid_data (update_grid_size shrunk_screen)) = 100"
    "\<forall>i<100. grid_data (update_grid_size shrunk_screen) ! i = grid_data shrunk_screen ! i"
    "grid_index (update_grid_size shrunk_screen) = min (grid_index shrunk_screen) 100"
    unfolding A2 B2 by simp_all
  from grown shrunk A1 A2 show ?thesis by simp
qed

text \<open>
  On a screen of 1024 by 966 pixels the fit gives 29 columns and 28 rows. The ratio
  \<open>966 / 30\<close> rounds to a number just above 32.2, and \<open>1026\<close> divided by that number
  plus 2 rounds to a number just below 30.
\<close>

lemma ratio_966: "round64 (161 / 5) = 2265873562520781 / 2 ^ 46"
proof -
  have r: "py_round (of_int 22658735625207808 / of_int 5) = 22658735625207808 div 5 + 1"
    by (rule py_round_frac_up) simp_all
  have "round64 (161 / 5)
      = of_int (py_round (of_int 22658735625207808 / of_int 5)) * 2 powr of_int (5 - 52)"
    by (rule round64_scaled) (simp_all add: powr_minus_divide)
  then show ?thesis unfolding r by (simp add: powr_minus_divide)
qed

lemma target_966:
  "round64 (2406611050876109 / 70368744177664) = 2406611050876109 / 70368744177664"
proof -
  have "round64 (of_int 2406611050876109 * 2 powr of_int (- 46))
      = of_int 2406611050876109 * 2 powr of_int (- 46)"
    by (rule round64_dyadic) simp_all
  then show ?thesis by (simp add: powr_minus_divide)
qed

lemma cols_966: "py_int (round64 (72198331526283264 / 2406611050876109)) = 29"
proof -
  have r: "py_round (of_int 20322023684908802592744023261184 / of_int 2406611050876109)
      = 20322023684908802592744023261184 div 2406611050876109"
    by (rule py_round_frac_down) simp_all
  have "round64 (72198331526283264 / 2406611050876109)
      = of_int (py_round (of_int 20322023684908802592744023261184 / of_int 2406611050876109))
        * 2 powr of_int (4 - 52)"
    by (rule round64_scaled) (simp_all add: powr_minus_divide)
  then have "round64 (72198331526283264 / 2406611050876109)
      = of_int 8444249301319679 / of_int 281474976710656"
    unfolding r by (simp add: powr_minus_divide)
  moreover have "py_int (of_int 8444249301319679 / of_int 281474976710656) = 29"
    unfolding py_int_frac by simp
  ultimately show ?thesis by (simp only:)
qed

lemma rows_966: "py_int (round64 (6192449487634432 / 218782822806919)) = 28"
proof -
  have r: "py_round (of_int 19173215328451969697637635981312 / of_int 2406611050876109)
      = 19173215328451969697637635981312 div 2406611050876109 + 1"
    by (rule py_round_frac_up) simp_all
  have "round64 (6192449487634432 / 218782822806919)
      = of_int (py_round (of_int 19173215328451969697637635981312 / of_int 2406611050876109))
        * 2 powr of_int (4 - 52)"
    by (rule round64_scaled) (simp_all add: powr_minus_divide)
  then have "round64 (6192449487634432 / 218782822806919)
      = of_int 7966894077658333 / of_int 281474976710656"
    unfolding r by (simp add: powr_minus_divide)
  moreover have "py_int (of_int 7966894077658333 / of_int 281474976710656) = 28"
    unfolding py_int_frac by simp
  ultimately show ?thesis by (simp only:)
qed

lemma fit_grid_1024_966:
  assumes "screen_width s = 1024" and "screen_height s = 966"
  shows "grid_cols (fit_grid s) = 29 \<and> grid_rows (fit_grid s) = 28"
proof -
  have r: "round64 1026 = 1026" "round64 968 = 968"
    using round64_of_int [of 1026] round64_of_int [of 968] by simp_all
  from cols_966 rows_966 assms show ?thesis
    by (simp add: fit_grid_def Let_def ratio_966 target_966 r)
qed

subsection \<open>The invariant\<close>

lemma shift_left_length: "shift_left i n xs = Inr ys \<Longrightarrow> length ys = length xs"
proof (induction i n xs arbitrary: ys rule: shift_left.induct)
  case (1 i n xs)
  show ?case
  proof (cases "i < n")
    case False
    with "1.prems" show ?thesis by (simp add: shift_left.simps)
  next
    case True
    with "1.prems" obtain v zs where v: "py_get xs (i + 1) = Inr v"
      and zs: "py_set xs i v = Inr zs" and rest: "shift_left (i + 1) n zs = Inr ys"
      by (subst (asm) shift_left.simps) (auto split: sum.splits)
    from "1.IH" [OF True v zs rest] py_set_length [OF zs] show ?thesis by simp
  qed
qed

lemma update_grid_cases:
  assumes "update_grid c s = Inr s'"
  obtains (full) xs ys where "grid_index s \<ge> grid_cols s * grid_rows s"
      "shift_left 0 (grid_cols s * grid_rows s - 1) (grid_data s) = Inr xs"
      "py_set xs (grid_cols s * grid_rows s - 1) (Some c) = Inr ys"
      "s' = s\<lparr>played := (note_of_rgb c,
                 max 1 (py_int (of_int (fst c + fst (snd c) + snd (snd c)) / 3 / 255 * 127)))
                 # played s, grid_data := ys\<rparr>"
  | (append) ys where "grid_index s < grid_cols s * grid_rows s"
      "py_set (grid_data s) (grid_index s) (Some c) = Inr ys"
      "s' = s\<lparr>played := (note_of_rgb c,
                 max 1 (py_int (of_int (fst c + fst (snd c) + snd (snd c)) / 3 / 255 * 127)))
                 # played s, grid_data := ys, grid_index := grid_index s + 1\<rparr>"
proof (cases "grid_index s \<ge> grid_cols s * grid_rows s")
  case True
  with assms obtain xs ys where
    "shift_left 0 (grid_cols s * grid_rows s - 1) (grid_data s) = Inr xs"
    "py_set xs (grid_cols s * grid_rows s - 1) (Some c) = Inr ys"
    "s' = s\<lparr>played := (note_of_rgb c,
                 max 1 (py_int (of_int (fst c + fst (snd c) + snd (snd c)) / 3 / 255 * 127)))
                 # played s, grid_data := ys\<rparr>"
    by (cases c) (auto simp: update_grid_def Let_def play_midi_note_def split: sum.splits)
  with True show ?thesis by (rule full)
next
  case False
  with assms obtain ys where
    "py_set (grid_data s) (grid_index s) (Some c) = Inr ys"
    "s' = s\<lparr>played := (note_of_rgb c,
                 max 1 (py_int (of_int (fst c + fst (snd c) + snd (snd c)) / 3 / 255 * 127)))
                 # played s, grid_data := ys, grid_index := grid_index s + 1\<rparr>"
    by (cases c) (auto simp: update_grid_def Let_def play_midi_note_def split: sum.splits)
  with False show ?thesis by (intro append) auto
qed

lemma update_grid_fields:
  assumes "update_grid c s = Inr s'"
  shows "length (grid_data s') = length (grid_data s)"
    and "grid_cols s' = grid_cols s" and "grid_rows s' = grid_rows s"
    and "last_update s' = last_update s"
    and "length (played s') = Suc (length (played s))"
    and "grid_index s' = (if grid_index s \<ge> grid_cols s * grid_rows s then grid_index s
                          else grid_index s + 1)"
  using assms
  by (cases rule: update_grid_cases;
      simp add: shift_left_length py_set_length
      )+

lemma update_grid_inv:
  assumes "grid_inv s" and "update_grid c s = Inr s'"
  shows "grid_inv s'"
  using assms(1) update_grid_fields [OF assms(2)]
  by (auto simp: grid_inv_def)

lemma resize_grid_data_inv:
  assumes "0 \<le> grid_index s" and "0 \<le> grid_cols s * grid_rows s"
    and "int (length (grid_data s)) = grid_cols s * grid_rows s \<longrightarrow> grid_index s \<le> grid_cols s * grid_rows s"
  shows "grid_inv (resize_grid_data s)"
proof (cases "int (length (grid_data s)) = grid_cols s * grid_rows s")
  case True
  with assms show ?thesis by (simp add: resize_grid_data_same grid_inv_def)
next
  case False
  from resize_grid_data_changed(1,2) [OF False] assms(1,2) show ?thesis
    by (auto simp: grid_inv_def resize_grid_data_dims)
qed

lemma update_grid_size_inv:
  assumes "grid_inv s"
  shows "grid_inv (update_grid_size s)"
proof -
  have "0 \<le> grid_cols (fit_grid s) * grid_rows (fit_grid s)"
    using fit_grid_fields(1,2) [of s] by simp
  moreover have "0 \<le> grid_index (fit_grid s)"
    using assms by (simp add: fit_grid_fields grid_inv_def)
  moreover have "grid_index (fit_grid s) \<le> grid_cols (fit_grid s) * grid_rows (fit_grid s)"
    if "int (length (grid_data (fit_grid s))) = grid_cols (fit_grid s) * grid_rows (fit_grid s)"
    using that assms by (simp add: fit_grid_fields grid_inv_def)
  ultimately show ?thesis
    unfolding update_grid_size_def
    by (intro resize_grid_data_inv) auto
qed

lemma init_fields_inv: "grid_inv (init_fields w h)"
  by (simp add: grid_inv_def init_fields_def)

lemma init_inv: "grid_inv (init w h)"
  using update_grid_size_inv [OF init_fields_inv, of w h]
  by (simp add: init_def grid_inv_def)

lemma init_dims: "10 \<le> grid_cols (init w h)" "10 \<le> grid_rows (init w h)"
  by (simp_all add: init_def update_grid_size_dims(1,2))


lemma draw_cells_fields:
  "\<forall>i \<in> set idx. i < length data \<and> i < length prev \<Longrightarrow>
   \<exists>p. draw_cells idx data prev = Inr p \<and> length p = length prev"
proof (induction idx arbitrary: prev)
  case Nil
  then show ?case by simp
next
  case (Cons i idx)
  then have i: "i < length data" "i < length prev" by auto
  have get: "py_get data (int i) = Inr (data ! i)"
    using i py_get_in_range [of "int i" data] by simp
  have set: "py_set prev (int i) (Some (cell_color (data ! i))) = Inr (prev[i := Some (cell_color (data ! i))])"
    using i py_set_in_range [of "int i" prev] by simp
  from Cons.prems have "\<forall>j \<in> set idx. j < length data \<and> j < length (prev[i := Some (cell_color (data ! i))])"
    by simp
  from Cons.IH [OF this] get set show ?case by simp
qed

lemma draw_grid_fields:
  assumes "draw_grid s = Inr s'"
  shows "s' = s\<lparr>previous_cell_colors := previous_cell_colors s'\<rparr>"
  using assms by (auto simp: draw_grid_def Let_def split: sum.splits)

lemma draw_grid_total:
  assumes "int (length (grid_data s)) = grid_cols s * grid_rows s"
  shows "\<exists>s'. draw_grid s = Inr s'"
proof -
  let ?total = "grid_cols s * grid_rows s"
  let ?prev = "if int (length (previous_cell_colors s)) \<noteq> ?total
               then replicate (nat ?total) None else previous_cell_colors s"
  have "length ?prev = nat ?total" by auto
  with assms have "\<forall>i \<in> set [0..<nat ?total]. i < length (grid_data s) \<and> i < length ?prev"
    by auto
  from draw_cells_fields [OF this] obtain p
    where "draw_cells [0..<nat ?total] (grid_data s) ?prev = Inr p" by blast
  then show ?thesis by (simp add: draw_grid_def Let_def)
qed


subsection \<open>Updates, drawing and the iteration of the run loop\<close>

lemma update_grid_append:
  assumes len: "int (length (grid_data s)) = grid_cols s * grid_rows s"
    and idx: "0 \<le> grid_index s" "grid_index s < grid_cols s * grid_rows s"
  shows "update_grid c s =
           Inr ((play_midi_note (note_of_rgb c)
                   (max 1 (py_int (of_int (fst c + fst (snd c) + snd (snd c)) / 3 / 255 * 127))) s)
                \<lparr>grid_data := (grid_data s)[nat (grid_index s) := Some c],
                 grid_index := grid_index s + 1\<rparr>)"
proof -
  have "py_set (grid_data s) (grid_index s) (Some c)
      = Inr ((grid_data s)[nat (grid_index s) := Some c])"
    using len idx by (intro py_set_in_range) auto
  then show ?thesis
    using idx by (cases c) (simp add: update_grid_def Let_def play_midi_note_def)
qed

lemma update_grid_total:
  assumes "grid_inv s" and "0 < grid_cols s * grid_rows s"
  shows "\<exists>s'. update_grid c s = Inr s'"
proof (cases "grid_index s \<ge> grid_cols s * grid_rows s")
  case True
  with assms update_grid_full [of s c] show ?thesis by (simp add: grid_inv_def)
next
  case False
  with assms update_grid_append [of s c] show ?thesis by (simp add: grid_inv_def)
qed

lemma tick_trigger:
  "update_interval \<le> t - last_update s \<Longrightarrow>
   tick t c s = (case update_grid c s of Inl e \<Rightarrow> Inl e
                 | Inr s1 \<Rightarrow> draw_grid (s1\<lparr>last_update := t\<rparr>))"
  by (simp add: tick_def)

lemma tick_idle: "t - last_update s < update_interval \<Longrightarrow> tick t c s = draw_grid s"
  by (simp add: tick_def)

lemma draw_grid_keeps:
  assumes "draw_grid s = Inr s'"
  shows "grid_data s' = grid_data s" "grid_index s' = grid_index s"
    "grid_cols s' = grid_cols s" "grid_rows s' = grid_rows s"
    "last_update s' = last_update s" "played s' = played s"
proof -
  from draw_grid_fields [OF assms] obtain p where "s' = s\<lparr>previous_cell_colors := p\<rparr>" ..
  then show "grid_data s' = grid_data s" "grid_index s' = grid_index s"
    "grid_cols s' = grid_cols s" "grid_rows s' = grid_rows s"
    "last_update s' = last_update s" "played s' = played s"
    by simp_all
qed

lemma tick_cases:
  assumes "tick t c s = Inr s'"
  obtains (trigger) s1 where "update_interval \<le> t - last_update s"
      "update_grid c s = Inr s1" "draw_grid (s1\<lparr>last_update := t\<rparr>) = Inr s'"
  | (idle) "t - last_update s < update_interval" "draw_grid s = Inr s'"
proof (cases "update_interval \<le> t - last_update s")
  case True
  with assms obtain s1 where "update_grid c s = Inr s1"
    "draw_grid (s1\<lparr>last_update := t\<rparr>) = Inr s'"
    by (auto simp: tick_def split: sum.splits)
  with True show ?thesis by (rule trigger)
next
  case False
  with assms have "draw_grid s = Inr s'" by (simp add: tick_def)
  with False show ?thesis by (intro idle) auto
qed

lemma tick_inv:
  assumes "tick t c s = Inr s'" and "grid_inv s"
  shows "grid_inv s' \<and> grid_cols s' = grid_cols s \<and> grid_rows s' = grid_rows s"
  using assms(1)
proof (cases rule: tick_cases)
  case (trigger s1)
  from update_grid_inv [OF assms(2) trigger(2)] have "grid_inv (s1\<lparr>last_update := t\<rparr>)"
    by (simp add: grid_inv_def)
  with draw_grid_keeps [OF trigger(3)] update_grid_fields [OF trigger(2)]
  show ?thesis by (simp add: grid_inv_def)
next
  case idle
  with draw_grid_keeps [OF idle(2)] assms(2)
  show ?thesis by (simp add: grid_inv_def)
qed

lemma reachable_inv:
  "reachable s \<Longrightarrow> grid_inv s \<and> 10 \<le> grid_cols s \<and> 10 \<le> grid_rows s"
proof (induction rule: reachable.induct)
  case (start w h)
  show ?case by (simp add: init_inv init_dims)
next
  case (step s t c s')
  with tick_inv [of t c s s'] show ?case by simp
qed

lemma tick_total:
  assumes "grid_inv s" and "0 < grid_cols s * grid_rows s"
  shows "\<exists>s'. tick t c s = Inr s'"
proof (cases "update_interval \<le> t - last_update s")
  case True
  from update_grid_total [OF assms, of c] obtain s1 where s1: "update_grid c s = Inr s1" ..
  from update_grid_inv [OF assms(1) s1]
  have "int (length (grid_data (s1\<lparr>last_update := t\<rparr>)))
      = grid_cols (s1\<lparr>last_update := t\<rparr>) * grid_rows (s1\<lparr>last_update := t\<rparr>)"
    by (simp add: grid_inv_def)
  from draw_grid_total [OF this] s1 True show ?thesis by (simp add: tick_trigger)
next
  case False
  from assms(1) have "int (length (grid_data s)) = grid_cols s * grid_rows s"
    by (simp add: grid_inv_def)
  from draw_grid_total [OF this] False show ?thesis by (simp add: tick_idle)
qed

lemma reachable_tick_total:
  assumes "reachable s"
  shows "\<exists>s'. tick t c s = Inr s'"
proof -
  from reachable_inv [OF assms] have inv: "grid_inv s" and "10 \<le> grid_cols s" "10 \<le> grid_rows s"
    by simp_all
  then have "0 < grid_cols s * grid_rows s" by simp
  with inv show ?thesis by (rule tick_total)
qed

text \<open>
  C9. The invariant of the grid store (the data array as long as the capacity
  \<^verbatim>\<open>grid_cols * grid_rows\<close>, the write index between 0 and the capacity) holds in every
  reachable state, holds of the fields the constructor sets, and is kept by
  \<^verbatim>\<open>update_grid_size\<close> and by every \<^verbatim>\<open>update_grid\<close> that returns. In a reachable state
  an iteration of the run loop, and so its \<^verbatim>\<open>update_grid\<close>, always returns
  (\<open>reachable_tick_total\<close>).
\<close>

theorem grid_inv_preserved:
  "(\<forall>s. reachable s \<longrightarrow> grid_inv s) \<and>
   (\<forall>w h. grid_inv (init_fields w h)) \<and>
   (\<forall>s. grid_inv s \<longrightarrow> grid_inv (update_grid_size s)) \<and>
   (\<forall>s c s'. grid_inv s \<and> update_grid c s = Inr s' \<longrightarrow> grid_inv s')"
  using reachable_inv init_fields_inv update_grid_size_inv update_grid_inv by blast

theorem grid_inv_preserved_witness:
  "grid_inv (init 0 0) \<and> grid_inv (update_grid_size shrunk_screen) \<and>
   (\<exists>s'. update_grid (5, 5, 5) full_2x2 = Inr s' \<and> grid_inv s')"
proof -
  have inv: "grid_inv shrunk_screen" "grid_inv full_2x2"
    by (simp_all add: grid_inv_def shrunk_screen_def full_2x2_def)
  have r: "reachable (init 0 0)" by (rule reachable.start)
  from update_grid_total [OF inv(2), of "(5, 5, 5)"]
  obtain s' where s': "update_grid (5, 5, 5) full_2x2 = Inr s'" by (auto simp: full_2x2_def)
  from grid_inv_preserved r inv s' show ?thesis by blast
qed

section \<open>Properties of the scheduler\<close>

lemma trigger_times_gaps:
  "successively (\<lambda>a b. update_interval \<le> b - a) (l # trigger_times l ts)"
  by (induction ts arbitrary: l) auto

lemma tick_effect:
  assumes "tick t c s = Inr s'"
  shows "if update_interval \<le> t - last_update s
         then last_update s' = t \<and>
              (\<exists>s1. update_grid c s = Inr s1 \<and> grid_data s' = grid_data s1 \<and>
                    grid_index s' = grid_index s1 \<and> played s' = played s1) \<and>
              length (played s') = Suc (length (played s))
         else last_update s' = last_update s \<and> grid_data s' = grid_data s \<and>
              grid_index s' = grid_index s \<and> played s' = played s"
  using assms
proof (cases rule: tick_cases)
  case (trigger s1)
  with draw_grid_keeps [OF trigger(3)] update_grid_fields(5) [OF trigger(2)]
  show ?thesis by auto
next
  case idle
  with draw_grid_keeps [OF idle(2)] show ?thesis by simp
qed

lemma run_trigger_times:
  "run fs s = Inr s' \<Longrightarrow>
   \<exists>k\<le>length fs.
     last_update s' = last (last_update s # trigger_times (last_update s) (map current_time (take k fs))) \<and>
     length (played s') = length (played s)
        + length (trigger_times (last_update s) (map current_time (take k fs)))"
proof (induction fs arbitrary: s)
  case Nil
  then show ?case by simp
next
  case (Cons f fs)
  from Cons.prems obtain s1 where s1: "tick (current_time f) (rgb_value f) s = Inr s1"
    and rest: "(if handle_events (events f) True then run fs s1 else Inr s1) = Inr s'"
    by (auto simp: Let_def split: sum.splits)
  note eff = tick_effect [OF s1]
  show ?case
  proof (cases "handle_events (events f) True")
    case False
    with rest have "s' = s1" by simp
    with eff have "last_update s' = last (last_update s # trigger_times (last_update s) (map current_time (take 1 (f # fs)))) \<and>
     length (played s') = length (played s)
        + length (trigger_times (last_update s) (map current_time (take 1 (f # fs))))"
      by (auto split: if_splits)
    then show ?thesis by (intro exI [of _ 1]) simp
  next
    case True
    with rest have "run fs s1 = Inr s'" by simp
    from Cons.IH [OF this] obtain k where k: "k \<le> length fs"
      "last_update s' = last (last_update s1 # trigger_times (last_update s1) (map current_time (take k fs)))"
      "length (played s') = length (played s1)
        + length (trigger_times (last_update s1) (map current_time (take k fs)))"
      by blast
    with eff have "last_update s' = last (last_update s # trigger_times (last_update s) (map current_time (take (Suc k) (f # fs)))) \<and>
     length (played s') = length (played s)
        + length (trigger_times (last_update s) (map current_time (take (Suc k) (f # fs))))"
      by (auto split: if_splits)
    with k(1) show ?thesis by (intro exI [of _ "Suc k"]) simp
  qed
qed

lemma init_start:
  "last_update (init w h) = 0" "played (init w h) = []" "grid_index (init w h) = 0"
proof -
  show "last_update (init w h) = 0" by (simp add: init_def)
  show "played (init w h) = []"
    by (simp add: init_def update_grid_size_def resize_grid_data_dims fit_grid_fields init_fields_def)
  have data: "grid_data (init_fields w h) = []" and idx: "grid_index (init_fields w h) = 0"
    by (simp_all add: init_fields_def)
  have total: "100 \<le> grid_cols (update_grid_size (init_fields w h))
      * grid_rows (update_grid_size (init_fields w h))"
    by (rule update_grid_size_total)
  then have "int (length (grid_data (init_fields w h)))
      \<noteq> grid_cols (update_grid_size (init_fields w h)) * grid_rows (update_grid_size (init_fields w h))"
    unfolding data list.size of_nat_0 by linarith
  from update_grid_size_changed(2) [OF this] total
  have "grid_index (update_grid_size (init_fields w h)) = 0" unfolding idx by simp
  then show "grid_index (init w h) = 0" by (simp add: init_def)
qed

text \<open>
  C7. An iteration of the run loop at clock reading \<open>t\<close> runs \<^verbatim>\<open>update_grid\<close> exactly when
  \<open>t - last_update\<close> is at least the interval of 500 ms, and then sets \<^verbatim>\<open>last_update\<close> to
  \<open>t\<close> and hands one note to the audio sink; otherwise it leaves \<^verbatim>\<open>last_update\<close>, the
  grid, the write index and the sink as they were. Over a run, \<^verbatim>\<open>last_update\<close> is the
  latest of the trigger times its clock readings produce, one note is played per
  trigger, and each trigger time is at least 500 ms after the one before it.
\<close>

theorem tick_schedule:
  "(update_interval \<le> t - last_update s \<longrightarrow>
      tick t c s = (case update_grid c s of Inl e \<Rightarrow> Inl e
                    | Inr s1 \<Rightarrow> draw_grid (s1\<lparr>last_update := t\<rparr>))) \<and>
   (t - last_update s < update_interval \<longrightarrow> tick t c s = draw_grid s) \<and>
   (tick t c s = Inr s' \<longrightarrow>
      (if update_interval \<le> t - last_update s
       then last_update s' = t \<and>
            (\<exists>s1. update_grid c s = Inr s1 \<and> grid_data s' = grid_data s1 \<and>
                  grid_index s' = grid_index s1 \<and> played s' = played s1) \<and>
            length (played s') = Suc (length (played s))
       else last_update s' = last_update s \<and> grid_data s' = grid_data s \<and>
            grid_index s' = grid_index s \<and> played s' = played s)) \<and>
   update_interval = 500 \<and>
   (run fs s = Inr s'' \<longrightarrow>
      (\<exists>k\<le>length fs.
         last_update s'' =
           last (last_update s # trigger_times (last_update s) (map current_time (take k fs))) \<and>
         length (played s'') = length (played s)
           + length (trigger_times (last_update s) (map current_time (take k fs))))) \<and>
   successively (\<lambda>a b. update_interval \<le> b - a) (l # trigger_times l ts)"
  using tick_trigger [of t s c] tick_idle [of t s c] tick_effect [of t c s s']
    run_trigger_times [of fs s s''] trigger_times_gaps [of l ts]
  by (simp add: update_interval_def)

theorem tick_schedule_witness:
  "(\<exists>s'. tick 500 (255, 0, 0) (init 0 0) = Inr s' \<and> last_update s' = 500 \<and>
          length (played s') = 1) \<and>
   (\<exists>s'. tick 499 (255, 0, 0) (init 0 0) = Inr s' \<and> last_update s' = 0 \<and>
          played s' = [] \<and> grid_index s' = 0)"
proof -
  have r: "reachable (init 0 0)" by (rule reachable.start)
  from reachable_tick_total [OF r] obtain s1 where s1: "tick 500 (255, 0, 0) (init 0 0) = Inr s1" ..
  from reachable_tick_total [OF r] obtain s2 where s2: "tick 499 (255, 0, 0) (init 0 0) = Inr s2" ..
  have "last_update s1 = 500 \<and> length (played s1) = 1"
    using tick_schedule [of 500 "init 0 0" "(255, 0, 0)" s1] s1
    by (simp add: init_start update_interval_def)
  moreover have "last_update s2 = 0 \<and> played s2 = [] \<and> grid_index s2 = 0"
    using tick_schedule [of 499 "init 0 0" "(255, 0, 0)" s2] s2
    by (simp add: init_start update_interval_def)
  ultimately show ?thesis using s1 s2 by blast
qed


section \<open>Properties of the tone synthesis\<close>

subsection \<open>The envelope and the size of a sample\<close>

lemma envelope_unit:
  assumes "0 \<le> i" and "i < frames"
  shows "0 \<le> envelope frames sample_rate i \<and> envelope frames sample_rate i \<le> 1"
proof -
  let ?w = "of_int sample_rate * (0.01 :: real)"
  consider (fade_in) "of_int i < ?w"
    | (fade_out) "\<not> of_int i < ?w" "of_int i > of_int frames - ?w"
    | (steady) "\<not> of_int i < ?w" "\<not> of_int i > of_int frames - ?w"
    by blast
  then show ?thesis
  proof cases
    case fade_in
    from assms(1) have "(0 :: real) \<le> of_int i" by simp
    with fade_in have "0 < ?w" by linarith
    with fade_in \<open>(0 :: real) \<le> of_int i\<close>
    have "0 \<le> of_int i / ?w \<and> of_int i / ?w \<le> 1" by (simp add: field_simps)
    with fade_in show ?thesis by (simp add: envelope_def)
  next
    case fade_out
    from assms(2) have "(0 :: real) < of_int frames - of_int i" by simp
    moreover from fade_out(2) have "of_int frames - of_int i < ?w" by linarith
    ultimately have "0 \<le> (of_int frames - of_int i) / ?w \<and> (of_int frames - of_int i) / ?w \<le> 1"
      by (simp add: field_simps)
    with fade_out show ?thesis by (simp add: envelope_def)
  next
    case steady
    then show ?thesis by (simp add: envelope_def)
  qed
qed

lemma max_sample_value: "max_sample = 32767"
  by (simp add: max_sample_def)

lemma sample_value_bound:
  assumes "0 \<le> i" and "i < frames"
  shows "\<bar>sample_value frequency frames sample_rate i\<bar> \<le> 9830"
proof -
  let ?wave = "sin (2 * pi * frequency * of_int i / of_int sample_rate)"
  let ?e = "envelope frames sample_rate i"
  from envelope_unit [OF assms] have e: "0 \<le> ?e" "?e \<le> 1" by simp_all
  have "\<bar>?wave * ?e\<bar> = \<bar>?wave\<bar> * ?e" using e by (simp add: abs_mult)
  also have "\<dots> \<le> 1 * 1" using e by (intro mult_mono) simp_all
  finally have we: "\<bar>?wave * ?e\<bar> \<le> 1" by simp
  have "\<bar>?wave * of_int max_sample * ?e * 0.3\<bar> = \<bar>?wave * ?e\<bar> * 9830.1"
    by (simp add: max_sample_value abs_mult)
  also have "\<dots> \<le> 9830.1" using we by simp
  finally have "\<bar>?wave * of_int max_sample * ?e * 0.3\<bar> < of_int 9830 + 1" by simp
  from py_int_abs_le [OF this] show ?thesis by (simp add: sample_value_def Let_def)
qed

subsection \<open>The buffer\<close>

lemma two_pi64_bound: "\<bar>two_pi64\<bar> \<le> 8"
  by (simp add: two_pi64_def)

lemma sine_finite:
  assumes f: "\<bar>frequency\<bar> \<le> 2 ^ 500" and i: "\<bar>i\<bar> \<le> 2 ^ 500"
  shows "\<not> sine_overflows frequency i"
proof -
  have a: "\<bar>two_pi64 * frequency\<bar> \<le> 8 * 2 ^ 500"
    unfolding abs_mult using two_pi64_bound f by (intro mult_mono) simp_all
  have "(8 :: real) * 2 ^ 500 \<le> 2 ^ 1022" by simp
  with a have "\<bar>two_pi64 * frequency\<bar> \<le> 2 ^ 1022" by linarith
  then have first: "\<not> overflows64 (two_pi64 * frequency)" by (rule not_overflows64)
  have "\<bar>round64 (two_pi64 * frequency)\<bar> \<le> 2 * (8 * 2 ^ 500) + 1"
    using round64_abs_le [of "two_pi64 * frequency"] a by linarith
  also have "\<dots> \<le> 2 ^ 505" by simp
  finally have b: "\<bar>round64 (two_pi64 * frequency)\<bar> \<le> 2 ^ 505" .
  from i have "(of_int \<bar>i\<bar> :: real) \<le> of_int (2 ^ 500)" by (simp only: of_int_le_iff)
  then have "\<bar>of_int i :: real\<bar> \<le> 2 ^ 500" by simp
  then have "\<bar>round64 (of_int i)\<bar> \<le> 2 * 2 ^ 500 + 1"
    using round64_abs_le [of "of_int i"] by linarith
  also have "\<dots> \<le> 2 ^ 502" by simp
  finally have c: "\<bar>round64 (of_int i)\<bar> \<le> 2 ^ 502" .
  have "\<bar>round64 (two_pi64 * frequency) * round64 (of_int i)\<bar> \<le> 2 ^ 505 * 2 ^ 502"
    unfolding abs_mult using b c by (intro mult_mono) simp_all
  also have "\<dots> \<le> 2 ^ 1022" by simp
  finally have "\<not> overflows64 (round64 (two_pi64 * frequency) * round64 (of_int i))"
    by (rule not_overflows64)
  with first show ?thesis by (simp add: sine_overflows_def)
qed

lemma tone_frames_Inr:
  assumes "tone_frames duration sample_rate = Inr n"
  shows "n = py_int (round64 (duration * round64 (of_int sample_rate)))"
    and "\<not> overflows64 (of_int sample_rate)"
    and "\<not> overflows64 (duration * round64 (of_int sample_rate))"
  using assms by (auto simp: tone_frames_def split: if_splits)

lemma frames_positive_rate:
  assumes "tone_frames duration sample_rate = Inr n" and "0 < n"
  shows "sample_rate \<noteq> 0"
proof
  assume "sample_rate = 0"
  with tone_frames_Inr(1) [OF assms(1)] have "n = 0" by (simp add: round64_def py_int_def)
  with assms(2) show False by simp
qed

lemma tone_sample_Inr:
  "tone_sample frequency frames sample_rate i = Inr v \<longleftrightarrow>
     sample_rate \<noteq> 0 \<and> \<not> sine_overflows frequency i \<and>
     v = sample_value frequency frames sample_rate i"
  by (auto simp: tone_sample_def)

lemma fill_tone_rows:
  assumes "distinct idx" and "\<forall>i \<in> set idx. i < length arr"
    and "\<forall>i \<in> set idx. tone_sample frequency frames sample_rate (int i)
           = Inr (sample_value frequency frames sample_rate (int i))"
  shows "\<exists>buf. fill_tone frequency frames sample_rate idx arr = Inr buf \<and>
           length buf = length arr \<and>
           (\<forall>i < length arr.
              buf ! i = (if i \<in> set idx
                         then (word_of_int (sample_value frequency frames sample_rate (int i)),
                               word_of_int (sample_value frequency frames sample_rate (int i)))
                         else arr ! i))"
  using assms
proof (induction idx arbitrary: arr)
  case Nil
  then show ?case by simp
next
  case (Cons j idx)
  let ?row = "(word_of_int (sample_value frequency frames sample_rate (int j)) :: 16 word,
               word_of_int (sample_value frequency frames sample_rate (int j)) :: 16 word)"
  from Cons.prems have "distinct idx" "\<forall>i \<in> set idx. i < length (arr[j := ?row])"
    "\<forall>i \<in> set idx. tone_sample frequency frames sample_rate (int i)
           = Inr (sample_value frequency frames sample_rate (int i))"
    by simp_all
  from Cons.IH [OF this] obtain buf where
    buf: "fill_tone frequency frames sample_rate idx (arr[j := ?row]) = Inr buf"
      "length buf = length arr"
      "\<forall>i < length arr. buf ! i = (if i \<in> set idx
           then (word_of_int (sample_value frequency frames sample_rate (int i)),
                 word_of_int (sample_value frequency frames sample_rate (int i)))
           else (arr[j := ?row]) ! i)"
    by auto
  from Cons.prems(3) have "tone_sample frequency frames sample_rate (int j)
      = Inr (sample_value frequency frames sample_rate (int j))" by simp
  then have "fill_tone frequency frames sample_rate (j # idx) arr = Inr buf"
    using buf(1) by simp
  moreover have "buf ! i = (if i \<in> set (j # idx)
           then (word_of_int (sample_value frequency frames sample_rate (int i)),
                 word_of_int (sample_value frequency frames sample_rate (int i)))
           else arr ! i)" if "i < length arr" for i
    using buf(3) that Cons.prems by (cases "i = j") auto
  ultimately show ?case using buf(2) by simp
qed

lemma fill_tone_Inr:
  assumes "fill_tone frequency frames sample_rate idx arr = Inr buf"
  shows "\<forall>i \<in> set idx. tone_sample frequency frames sample_rate (int i)
           = Inr (sample_value frequency frames sample_rate (int i))"
  using assms
proof (induction idx arbitrary: arr)
  case Nil
  then show ?case by simp
next
  case (Cons j idx)
  from Cons.prems obtain v where v: "tone_sample frequency frames sample_rate (int j) = Inr v"
    and rest: "fill_tone frequency frames sample_rate idx
                 (arr[j := (word_of_int v, word_of_int v)]) = Inr buf"
    by (auto split: sum.splits)
  from v have "v = sample_value frequency frames sample_rate (int j)"
    by (simp add: tone_sample_Inr)
  with v Cons.IH [OF rest] show ?case by simp
qed



lemma generate_tone_returns:
  assumes frames: "tone_frames duration sample_rate = Inr n" and n: "0 \<le> n"
    and finite: "\<forall>i. 0 \<le> i \<and> i < n \<longrightarrow> \<not> sine_overflows frequency i"
  shows "\<exists>buf. generate_tone frequency duration sample_rate = Inr buf \<and>
           int (length buf) = n \<and>
           (\<forall>i < length buf.
              buf ! i = (word_of_int (sample_value frequency n sample_rate (int i)),
                         word_of_int (sample_value frequency n sample_rate (int i))))"
proof -
  have samples: "\<forall>i \<in> set [0..<nat n]. tone_sample frequency n sample_rate (int i)
           = Inr (sample_value frequency n sample_rate (int i))"
  proof
    fix i assume "i \<in> set [0..<nat n]"
    then have i: "0 \<le> int i" "int i < n" by auto
    then have "0 < n" by simp
    with frames have "sample_rate \<noteq> 0" by (rule frames_positive_rate)
    moreover from finite i have "\<not> sine_overflows frequency (int i)" by blast
    ultimately show "tone_sample frequency n sample_rate (int i)
           = Inr (sample_value frequency n sample_rate (int i))"
      by (simp add: tone_sample_Inr)
  qed
  have "distinct [0..<nat n]"
    and "\<forall>i \<in> set [0..<nat n]. i < length (replicate (nat n) (0 :: 16 word, 0 :: 16 word))"
    by simp_all
  from fill_tone_rows [OF this samples]
  obtain buf where buf:
    "fill_tone frequency n sample_rate [0..<nat n] (replicate (nat n) (0, 0)) = Inr buf"
    "length buf = nat n"
    "\<forall>i < nat n. buf ! i =
       (word_of_int (sample_value frequency n sample_rate (int i)),
        word_of_int (sample_value frequency n sample_rate (int i)))"
    by auto
  from buf(1) frames n have "generate_tone frequency duration sample_rate = Inr buf"
    by (simp add: generate_tone_def)
  moreover from buf(2) n have "int (length buf) = n" by simp
  ultimately show ?thesis using buf(2,3) by auto
qed

lemma generate_tone_Inr:
  assumes "generate_tone frequency duration sample_rate = Inr buf"
  shows "tone_frames duration sample_rate = Inr (int (length buf))"
    and "\<forall>i < length buf.
           tone_sample frequency (int (length buf)) sample_rate (int i)
             = Inr (sample_value frequency (int (length buf)) sample_rate (int i)) \<and>
           buf ! i = (word_of_int (sample_value frequency (int (length buf)) sample_rate (int i)),
                      word_of_int (sample_value frequency (int (length buf)) sample_rate (int i)))"
proof -
  from assms obtain n where frames: "tone_frames duration sample_rate = Inr n"
    and n: "0 \<le> n"
    and fill: "fill_tone frequency n sample_rate [0..<nat n] (replicate (nat n) (0, 0)) = Inr buf"
    by (auto simp: generate_tone_def split: sum.splits if_splits)
  note samples = fill_tone_Inr [OF fill]
  have "distinct [0..<nat n]"
    and "\<forall>i \<in> set [0..<nat n]. i < length (replicate (nat n) (0 :: 16 word, 0 :: 16 word))"
    by simp_all
  from fill_tone_rows [OF this samples] fill
  have len: "length buf = nat n"
    and rows: "\<forall>i < nat n. buf ! i =
       (word_of_int (sample_value frequency n sample_rate (int i)),
        word_of_int (sample_value frequency n sample_rate (int i)))"
    by auto
  from len n have eq: "int (length buf) = n" by simp
  with frames show "tone_frames duration sample_rate = Inr (int (length buf))" by simp
  from samples rows len show "\<forall>i < length buf.
           tone_sample frequency (int (length buf)) sample_rate (int i)
             = Inr (sample_value frequency (int (length buf)) sample_rate (int i)) \<and>
           buf ! i = (word_of_int (sample_value frequency (int (length buf)) sample_rate (int i)),
                      word_of_int (sample_value frequency (int (length buf)) sample_rate (int i)))"
    unfolding eq by simp
qed

lemma sint_int16:
  assumes "\<bar>v\<bar> \<le> 9830"
  shows "sint (word_of_int v :: 16 word) = v"
proof -
  have "- (2 ^ 15) \<le> v" "v < 2 ^ 15" using assms by simp_all
  then have "signed_take_bit 15 v = v" by (rule signed_take_bit_int_eq_self)
  then show ?thesis by (simp add: sint_sbintrunc')
qed

subsection \<open>The number of frames at some durations and rates\<close>

lemma tone_frames_finite:
  assumes "\<bar>of_int sample_rate :: real\<bar> \<le> 2 ^ 1022"
    and "\<bar>duration * round64 (of_int sample_rate)\<bar> \<le> 2 ^ 1022"
  shows "tone_frames duration sample_rate
           = Inr (py_int (round64 (duration * round64 (of_int sample_rate))))"
  using not_overflows64 [OF assms(1)] not_overflows64 [OF assms(2)]
  by (simp add: tone_frames_def)

lemma round64_44100: "round64 44100 = 44100"
  using round64_of_int [of 44100] by simp

text \<open>The binary64 number 0.2, times 44100.\<close>

lemma frames_default: "tone_frames (3602879701896397 / 2 ^ 54) 44100 = Inr 8820"
proof -
  let ?d = "3602879701896397 / 2 ^ 54 :: real"
  have r: "py_round (of_int 158886994853631107700 / of_int 32768)
      = 158886994853631107700 div 32768"
    by (rule py_round_frac_down) simp_all
  have "round64 (39721748713407776925 / 4503599627370496)
      = of_int (py_round (of_int 158886994853631107700 / of_int 32768)) * 2 powr of_int (13 - 52)"
    by (rule round64_scaled) (simp_all add: powr_minus_divide)
  then have x: "round64 (39721748713407776925 / 4503599627370496) = 8820"
    unfolding r by (simp add: powr_minus_divide)
  have "tone_frames ?d 44100 = Inr (py_int (round64 (?d * round64 (of_int 44100))))"
    by (rule tone_frames_finite) (simp_all add: round64_44100)
  then show ?thesis by (simp add: round64_44100 x py_int_def)
qed



lemma frames_7_8: "tone_frames (7 / 8) 2 = Inr 1"
proof -
  have r2: "round64 2 = 2" using round64_of_int [of 2] by simp
  have "round64 (of_int 7 * 2 powr of_int (- 2)) = of_int 7 * 2 powr of_int (- 2)"
    by (rule round64_dyadic) simp_all
  then have x: "round64 (7 / 4) = 7 / 4" by (simp add: powr_minus_divide)
  have p: "py_int (7 / 4) = 1" using py_int_frac [of 7 4] by simp
  have "tone_frames (7 / 8) 2 = Inr (py_int (round64 (7 / 8 * round64 (of_int 2))))"
    by (rule tone_frames_finite) (simp_all add: r2)
  then show ?thesis by (simp add: r2 x p)
qed

lemma frames_1_64: "tone_frames (1 / 64) 300 = Inr 4"
proof -
  have r300: "round64 300 = 300" using round64_of_int [of 300] by simp
  have "round64 (of_int 75 * 2 powr of_int (- 4)) = of_int 75 * 2 powr of_int (- 4)"
    by (rule round64_dyadic) simp_all
  then have x: "round64 (75 / 16) = 75 / 16" by (simp add: powr_minus_divide)
  have p: "py_int (75 / 16) = 4" using py_int_frac [of 75 16] by simp
  have "tone_frames (1 / 64) 300 = Inr (py_int (round64 (1 / 64 * round64 (of_int 300))))"
    by (rule tone_frames_finite) (simp_all add: r300)
  then show ?thesis by (simp add: r300 x p)
qed

lemma sine_finite_440: "0 \<le> i \<Longrightarrow> i < 2 ^ 20 \<Longrightarrow> \<not> sine_overflows 440 i"
  by (rule sine_finite) simp_all

text \<open>
  A frequency of \<open>2^1023\<close> Hz or more makes the first product of the sine's argument
  overflow: the loop raises \<^verbatim>\<open>ValueError\<close> at its first frame and no tone is produced.
\<close>

lemma round64_abs_ge:
  assumes "1 \<le> \<bar>x\<bar>"
  shows "\<bar>x\<bar> / 2 \<le> \<bar>round64 x\<bar>"
proof -
  from assms have "x \<noteq> 0" by auto
  from quantum_le [OF this] assms have "quantum x \<le> \<bar>x\<bar>" by (simp add: max_def)
  with round64_error [of x] show ?thesis by linarith
qed

lemma overflows64_big:
  assumes "2 * 2 ^ 1024 \<le> \<bar>x\<bar>"
  shows "overflows64 x"
proof -
  have "(1 :: real) \<le> 2 ^ 1024" by (rule one_le_power) simp
  with assms have "1 \<le> \<bar>x\<bar>" by linarith
  from round64_abs_ge [OF this] assms show ?thesis unfolding overflows64_def by linarith
qed


lemma sine_overflows_huge:
  assumes "2 ^ 1023 \<le> \<bar>frequency\<bar>"
  shows "sine_overflows frequency i"
proof -
  have a: "(4 :: real) \<le> \<bar>two_pi64\<bar>" by (simp add: two_pi64_def)
  have b: "(0 :: real) \<le> 2 ^ 1023" by (rule zero_le_power) simp
  have "4 * 2 ^ 1023 \<le> \<bar>two_pi64\<bar> * \<bar>frequency\<bar>"
    by (rule mult_mono [OF a assms abs_ge_zero b])
  moreover have "(4 :: real) * 2 ^ 1023 = 2 * 2 ^ 1024"
  proof -
    define P :: real where "P = 2 ^ 1023"
    have "Suc 1023 = 1024" by simp
    with power_Suc [of "2 :: real" 1023] have "(2 :: real) ^ 1024 = 2 * P"
      by (simp only: P_def)
    then show ?thesis unfolding P_def [symmetric] by simp
  qed
  ultimately have "2 * 2 ^ 1024 \<le> \<bar>two_pi64 * frequency\<bar>" by (simp only: abs_mult)
  then have "overflows64 (two_pi64 * frequency)" by (rule overflows64_big)
  then show ?thesis by (simp add: sine_overflows_def)
qed


lemma generate_tone_sine_overflow:
  assumes "2 ^ 1023 \<le> \<bar>frequency\<bar>"
  shows "generate_tone frequency (7 / 8) 2 = Inl ValueError"
proof -
  have "sine_overflows frequency 0" using assms by (rule sine_overflows_huge)
  then have "tone_sample frequency 1 2 0 = Inl ValueError"
    by (simp add: tone_sample_def)
  then show ?thesis by (simp add: generate_tone_def frames_7_8)
qed

subsection \<open>The windows of the envelope\<close>

lemma envelope_fade_in:
  assumes "of_int i < of_int sample_rate * (0.01 :: real)"
  shows "envelope frames sample_rate i = of_int i / (of_int sample_rate * 0.01)"
  using assms by (simp add: envelope_def)

lemma envelope_fade_out:
  assumes "of_int sample_rate * (0.01 :: real) \<le> of_int i"
    and "of_int frames - of_int sample_rate * (0.01 :: real) \<le> of_int i"
    and "i < frames"
  shows "envelope frames sample_rate i = (of_int frames - of_int i) / (of_int sample_rate * 0.01)"
proof (cases "of_int frames - of_int sample_rate * (0.01 :: real) < of_int i")
  case True
  with assms(1) show ?thesis by (simp add: envelope_def)
next
  case False
  with assms(2) have eq: "of_int frames - of_int i = of_int sample_rate * (0.01 :: real)" by simp
  from assms(3) have "(0 :: real) < of_int frames - of_int i" by simp
  with eq have "(of_int frames - of_int i) / (of_int sample_rate * (0.01 :: real)) = 1" by simp
  moreover from False assms(1) have "envelope frames sample_rate i = 1" by (simp add: envelope_def)
  ultimately show ?thesis by simp
qed

lemma envelope_steady:
  assumes "of_int sample_rate * (0.01 :: real) \<le> of_int i"
    and "of_int i \<le> of_int frames - of_int sample_rate * (0.01 :: real)"
  shows "envelope frames sample_rate i = 1"
  using assms by (simp add: envelope_def)

lemma envelope_fade_in_mono:
  assumes "0 \<le> i" and "i < j" and "of_int j < of_int sample_rate * (0.01 :: real)"
  shows "envelope frames sample_rate i < envelope frames sample_rate j"
proof -
  from assms(1) have i0: "(0 :: real) \<le> of_int i" by simp
  from assms(2) have ij: "(of_int i :: real) < of_int j" by simp
  from i0 ij assms(3) have w: "0 < of_int sample_rate * (0.01 :: real)" by linarith
  from ij assms(3) have i: "of_int i < of_int sample_rate * (0.01 :: real)" by linarith
  from ij w have "of_int i / (of_int sample_rate * (0.01 :: real)) < of_int j / (of_int sample_rate * 0.01)"
    by (rule divide_strict_right_mono)
  with envelope_fade_in [OF i] envelope_fade_in [OF assms(3)] show ?thesis by simp
qed

lemma envelope_fade_out_mono:
  assumes "of_int sample_rate * (0.01 :: real) \<le> of_int i"
    and "of_int frames - of_int sample_rate * (0.01 :: real) \<le> of_int i"
    and "i < j" and "j < frames"
  shows "envelope frames sample_rate j < envelope frames sample_rate i"
proof -
  from assms(3) have ij: "(of_int i :: real) < of_int j" by simp
  from assms(4) have jf: "(of_int j :: real) < of_int frames" by simp
  from assms(2) ij jf have w: "0 < of_int sample_rate * (0.01 :: real)" by linarith
  have i: "envelope frames sample_rate i = (of_int frames - of_int i) / (of_int sample_rate * 0.01)"
    using assms by (intro envelope_fade_out) simp_all
  have j: "envelope frames sample_rate j = (of_int frames - of_int j) / (of_int sample_rate * 0.01)"
    using assms ij by (intro envelope_fade_out) simp_all
  from ij have "(of_int frames - of_int j :: real) < of_int frames - of_int i" by simp
  from this w have "(of_int frames - of_int j) / (of_int sample_rate * (0.01 :: real))
      < (of_int frames - of_int i) / (of_int sample_rate * 0.01)"
    by (rule divide_strict_right_mono)
  with i j show ?thesis by simp
qed

text \<open>
  C8, amended. In a buffer of \<open>frames\<close> frames at rate \<open>r\<close>, with the window
  \<open>w = 0.01 * r\<close>, the envelope of frame \<open>i\<close> is \<open>i / w\<close> on the fade-in window
  (\<open>i < w\<close>), which comes first; \<open>(frames - i) / w\<close> on the frames of the fade-out
  window (\<open>frames - w \<le> i\<close>) that lie outside the fade-in window; and 1 between the two.
  When the windows do not overlap (\<open>w \<le> frames - w\<close>) every frame of the fade-out window
  has \<open>(frames - i) / w\<close>. The envelope increases strictly over the
  fade-in window and decreases strictly over the fade-out frames outside it.
\<close>

theorem envelope_windows:
  assumes "0 \<le> i" and "i < frames"
  shows "(of_int i < of_int sample_rate * (0.01 :: real) \<longrightarrow>
            envelope frames sample_rate i = of_int i / (of_int sample_rate * 0.01)) \<and>
         (of_int sample_rate * (0.01 :: real) \<le> of_int i \<and>
          of_int frames - of_int sample_rate * (0.01 :: real) \<le> of_int i \<longrightarrow>
            envelope frames sample_rate i
              = (of_int frames - of_int i) / (of_int sample_rate * 0.01)) \<and>
         (of_int sample_rate * (0.01 :: real) \<le> of_int i \<and>
          of_int i \<le> of_int frames - of_int sample_rate * (0.01 :: real) \<longrightarrow>
            envelope frames sample_rate i = 1) \<and>
         (of_int sample_rate * (0.01 :: real) \<le> of_int frames - of_int sample_rate * 0.01 \<and>
          of_int frames - of_int sample_rate * (0.01 :: real) \<le> of_int i \<longrightarrow>
            envelope frames sample_rate i
              = (of_int frames - of_int i) / (of_int sample_rate * 0.01)) \<and>
         (\<forall>j. i < j \<and> of_int j < of_int sample_rate * (0.01 :: real) \<longrightarrow>
            envelope frames sample_rate i < envelope frames sample_rate j) \<and>
         (\<forall>j. of_int sample_rate * (0.01 :: real) \<le> of_int i \<and>
              of_int frames - of_int sample_rate * (0.01 :: real) \<le> of_int i \<and>
              i < j \<and> j < frames \<longrightarrow>
            envelope frames sample_rate j < envelope frames sample_rate i)"
  using assms envelope_fade_in [of i sample_rate frames]
    envelope_fade_out [of sample_rate i frames] envelope_steady [of sample_rate i frames]
    envelope_fade_in_mono [of i _ sample_rate frames]
    envelope_fade_out_mono [of sample_rate i frames]
  by (smt (verit, best))

theorem envelope_windows_witness:
  "envelope 8820 44100 100 = 100 / 441 \<and> envelope 8820 44100 8800 = 20 / 441 \<and>
   envelope 8820 44100 4000 = 1 \<and>
   envelope 8820 44100 100 < envelope 8820 44100 101 \<and>
   envelope 8820 44100 8801 < envelope 8820 44100 8800"
proof -
  have a: "envelope 8820 44100 100 = 100 / 441 \<and>
      envelope 8820 44100 100 < envelope 8820 44100 101"
    using envelope_windows [of 100 8820 44100] by simp
  have b: "envelope 8820 44100 8800 = 20 / 441 \<and>
      envelope 8820 44100 8801 < envelope 8820 44100 8800"
    using envelope_windows [of 8800 8820 44100] by simp
  have c: "envelope 8820 44100 4000 = 1"
    using envelope_windows [of 4000 8820 44100] by simp
  from a b c show ?thesis by simp
qed

text \<open>
  C8 as stated fails on a short tone, where the two windows overlap: a tone of
  \<open>1/64\<close> s at 300 Hz has 4 frames and a window of 3 frames, so frame 1 is among the last
  three frames; its envelope is the fade-in value \<open>1/3\<close>, not \<open>(4 - 1) / 3 = 1\<close>, and the
  envelope still rises from frame 1 to frame 2.
\<close>

theorem envelope_short_tone_counterexample:
  "tone_frames (1 / 64) 300 = Inr 4 \<and>
   of_int 4 - of_int 300 * (0.01 :: real) \<le> of_int 1 \<and>
   envelope 4 300 1 = 1 / 3 \<and>
   (of_int 4 - of_int 1) / (of_int 300 * 0.01) = (1 :: real) \<and>
   envelope 4 300 1 < envelope 4 300 2"
  by (simp add: envelope_def frames_1_64)

subsection \<open>Samples and frames of a generated tone\<close>

text \<open>
  C10. Whenever the number of frames is not negative and the argument of the sine stays
  finite, \<^verbatim>\<open>generate_tone\<close> returns a buffer; and every row of a buffer it returns holds,
  in both channels, a sample whose absolute value is at most 9830, below
  \<open>0.3 * (2^15 - 1)\<close>; the 16-bit word stored reads back, as a signed number, as the
  very sample computed: the conversion never wraps. (Where the call raises, nothing is
  written.)
\<close>

theorem generate_tone_samples_bounded:
  "(tone_frames duration sample_rate = Inr n \<and> 0 \<le> n \<and>
      (\<forall>i. 0 \<le> i \<and> i < n \<longrightarrow> \<not> sine_overflows frequency i) \<longrightarrow>
      (\<exists>buf. generate_tone frequency duration sample_rate = Inr buf)) \<and>
   (generate_tone frequency duration sample_rate = Inr buf \<longrightarrow>
      (\<forall>i < length buf.
         \<exists>v. tone_sample frequency (int (length buf)) sample_rate (int i) = Inr v \<and>
             \<bar>v\<bar> \<le> 9830 \<and> of_int \<bar>v\<bar> \<le> (0.3 :: real) * of_int max_sample \<and>
             buf ! i = (word_of_int v, word_of_int v) \<and>
             sint (fst (buf ! i)) = v \<and> sint (snd (buf ! i)) = v))"
proof (intro conjI impI allI)
  assume "tone_frames duration sample_rate = Inr n \<and> 0 \<le> n \<and>
      (\<forall>i. 0 \<le> i \<and> i < n \<longrightarrow> \<not> sine_overflows frequency i)"
  then show "\<exists>buf. generate_tone frequency duration sample_rate = Inr buf"
    using generate_tone_returns [of duration sample_rate n frequency] by blast
next
  fix i
  assume buf: "generate_tone frequency duration sample_rate = Inr buf" and i: "i < length buf"
  let ?v = "sample_value frequency (int (length buf)) sample_rate (int i)"
  from generate_tone_Inr(2) [OF buf] i
  have sample: "tone_sample frequency (int (length buf)) sample_rate (int i) = Inr ?v"
    and row: "buf ! i = (word_of_int ?v, word_of_int ?v)"
    by simp_all
  from i have "0 \<le> int i" "int i < int (length buf)" by simp_all
  then have bound: "\<bar>?v\<bar> \<le> 9830" by (rule sample_value_bound)
  then have "(of_int \<bar>?v\<bar> :: real) \<le> of_int 9830" by (simp only: of_int_le_iff)
  then have real_bound: "of_int \<bar>?v\<bar> \<le> (0.3 :: real) * of_int max_sample"
    by (simp add: max_sample_value)
  from sample bound real_bound row sint_int16 [OF bound]
  show "\<exists>v. tone_sample frequency (int (length buf)) sample_rate (int i) = Inr v \<and>
             \<bar>v\<bar> \<le> 9830 \<and> of_int \<bar>v\<bar> \<le> (0.3 :: real) * of_int max_sample \<and>
             buf ! i = (word_of_int v, word_of_int v) \<and>
             sint (fst (buf ! i)) = v \<and> sint (snd (buf ! i)) = v"
    by simp
qed

theorem generate_tone_samples_bounded_witness:
  "\<exists>buf. generate_tone 440 (3602879701896397 / 2 ^ 54) 44100 = Inr buf \<and> length buf = 8820 \<and>
      \<bar>sint (fst (buf ! 100))\<bar> \<le> 9830 \<and> fst (buf ! 100) = snd (buf ! 100)"
proof -
  let ?d = "3602879701896397 / 2 ^ 54 :: real"
  have finite: "\<forall>i. 0 \<le> i \<and> i < 8820 \<longrightarrow> \<not> sine_overflows 440 i"
    using sine_finite_440 by simp
  have "\<exists>buf. generate_tone 440 ?d 44100 = Inr buf"
    using generate_tone_samples_bounded [of ?d 44100 8820 440 "[]", THEN conjunct1]
      frames_default finite
    by simp
  then obtain buf0 where buf0: "generate_tone 440 ?d 44100 = Inr buf0" ..
  from generate_tone_Inr(1) [OF buf0] frames_default have len: "length buf0 = 8820" by simp
  from generate_tone_samples_bounded [of ?d 44100 8820 440 buf0] buf0
  have "\<forall>i < length buf0.
      \<exists>v. \<bar>v\<bar> \<le> 9830 \<and> buf0 ! i = (word_of_int v, word_of_int v) \<and> sint (fst (buf0 ! i)) = v"
    by auto
  moreover have "100 < length buf0" using len by simp
  ultimately obtain v where "\<bar>v\<bar> \<le> 9830" "buf0 ! 100 = (word_of_int v, word_of_int v)"
    "sint (fst (buf0 ! 100)) = v"
    by blast
  then have "\<bar>sint (fst (buf0 ! 100))\<bar> \<le> 9830 \<and> fst (buf0 ! 100) = snd (buf0 ! 100)"
    by simp
  with buf0 len show ?thesis by blast
qed




end
